theory Spec2Isabelle
  imports Main "HOL-Library.AList"
begin

section \<open>The program\<close>

subsection \<open>Keys, errors and layered mappings\<close>

text \<open>
  A dependency key is a Python callable, used for its identity only; the model names an
  object by a natural number. The exceptions of \<^verbatim>\<open>exceptions.py\<close> are values;
  \<^verbatim>\<open>ValueError\<close> is the private signal of the cycle walk and \<^verbatim>\<open>IndexError\<close>
  is what \<^verbatim>\<open>self.maps[0]\<close> raises on a chain without layers. The three texts an
  \<^verbatim>\<open>InvalidOperation\<close> is raised with are the constructors of \<open>message\<close>.
\<close>

type_synonym key = nat

datatype message =
    NonCallable key  \<comment> \<open>"Cannot add non-callable object to the DI container: ..."\<close>
  | UseAget          \<comment> \<open>"Cannot extract async dependencies this way, use .aget instead"\<close>
  | CausesCycle      \<comment> \<open>"Cannot add dependency {key}, it causes a cycle"\<close>

datatype error =
    UnknownDependency key
  | InvalidOperation message
  | ValueError
  | IndexError
  | TypeError
  | AttributeError

text \<open>
  \<^verbatim>\<open>collections.ChainMap\<close>: a list of dictionaries, innermost first. A dictionary is an
  association list read by \<open>map_of\<close> and written by \<open>AList.update\<close>.
\<close>

type_synonym ('k, 'd) chainmap = "('k \<times> 'd) list list"

fun chain_lookup :: "('k, 'd) chainmap \<Rightarrow> 'k \<Rightarrow> 'd option" where
  "chain_lookup [] k = None"
| "chain_lookup (m # ms) k =
     (case map_of m k of Some d \<Rightarrow> Some d | None \<Rightarrow> chain_lookup ms k)"

definition contains :: "('k, 'd) chainmap \<Rightarrow> 'k \<Rightarrow> bool" where
  "contains st k = (chain_lookup st k \<noteq> None)"

definition new_child :: "('k \<times> 'd) list \<Rightarrow> ('k, 'd) chainmap \<Rightarrow> ('k, 'd) chainmap" where
  "new_child m st = m # st"

definition parents :: "('k, 'd) chainmap \<Rightarrow> ('k, 'd) chainmap" where
  "parents st = (case drop 1 st of [] \<Rightarrow> [[]] | m # ms \<Rightarrow> m # ms)"

definition chain_setitem :: "('k, 'd) chainmap \<Rightarrow> 'k \<Rightarrow> 'd \<Rightarrow> error + ('k, 'd) chainmap" where
  "chain_setitem st k v =
     (case st of [] \<Rightarrow> Inl IndexError | m # ms \<Rightarrow> Inr (AList.update k v m # ms))"

definition keys_of :: "('k, 'd) chainmap \<Rightarrow> 'k list" where
  "keys_of st = concat (map (map fst) st)"

subsection \<open>Callables, scopes, keyword arguments and dependency nodes\<close>

text \<open>
  What \<^verbatim>\<open>di.py\<close> reads off a callable: its identity, whether it is a coroutine
  function, and its \<^verbatim>\<open>__annotations__\<close> (for a class those of \<^verbatim>\<open>__init__\<close>, when that
  is a Python function, and nothing otherwise). An annotation is plain, or
  \<^verbatim>\<open>Annotated[T, marker]\<close> with \<open>None\<close> for the marker \<^verbatim>\<open>...\<close>.
\<close>

datatype annotation = Plain | Annotated key "key option"

datatype pyshape =
    PyFunction "(string \<times> annotation) list"
  | PyClass "(string \<times> annotation) list option"

record pyfunc =
  ident :: key
  coroutine :: bool
  shape :: pyshape

text \<open>
  Modelled from the spec: \<^verbatim>\<open>scopes.py\<close> and \<^verbatim>\<open>dependency.py\<close> are not among the
  sources. A Scope Policy is \<open>{factory, is_async, cached_value}\<close> in the variants Factory
  and Singleton-like; \<open>is_async\<close> is derived once from the factory's nature, here the
  \<open>coroutine\<close> flag of the wrapped callable. The cached value is mutable state of the
  scope object, so it lives in the \<open>world\<close> below under the object's identity \<open>sid\<close>.
  A Kwarg Descriptor is \<open>{name, target_key, attribute_path}\<close>, a Dependency Node is
  \<open>{scope, unresolved kwargs}\<close>; the field names are the ones \<^verbatim>\<open>_storage.py\<close> reads
  (\<^verbatim>\<open>kwarg.name\<close>, \<^verbatim>\<open>kwarg.func\<close>, \<^verbatim>\<open>kwarg.attrs\<close>, \<^verbatim>\<open>self[key].subdeps\<close>).
\<close>

datatype scope_kind = Factory | Singleton

record scope =
  kind :: scope_kind
  factory :: pyfunc
  sid :: nat

record kwarg =
  name :: string
  func :: key
  attrs :: "string list"

record dependency =
  scope :: scope
  subdeps :: "kwarg list"

type_synonym storage = "(key, dependency) chainmap"

subsection \<open>DepChainMap and the cycle detector\<close>

text \<open>
  \<^verbatim>\<open>DepChainMap.__getitem__\<close>: the chain's lookup, with \<^verbatim>\<open>KeyError\<close> turned into
  \<^verbatim>\<open>UnknownDependency(key)\<close>.
\<close>

definition getitem :: "storage \<Rightarrow> key \<Rightarrow> error + dependency" where
  "getitem st k =
     (case chain_lookup st k of Some d \<Rightarrow> Inr d | None \<Rightarrow> Inl (UnknownDependency k))"

text \<open>
  \<^verbatim>\<open>DepStorage._has_cycle\<close>. \<open>colors\<close> is the \<^verbatim>\<open>defaultdict(int)\<close>: 0 white, 1 gray,
  2 black. The inner \<^verbatim>\<open>dfs\<close> returns nothing and mutates \<open>colors\<close>; the model returns the
  dictionary, or the exception that left the walk. The \<^verbatim>\<open>for\<close> loop over
  \<^verbatim>\<open>self[key].subdeps\<close> is \<open>dfs_cycle_subdeps\<close>.
\<close>

type_synonym colors = "key \<Rightarrow> nat"

function dfs_cycle :: "storage \<Rightarrow> key \<Rightarrow> colors \<Rightarrow> error + colors"
  and dfs_cycle_subdeps :: "storage \<Rightarrow> kwarg list \<Rightarrow> colors \<Rightarrow> error + colors"
where
  "dfs_cycle st k colors =
     (if colors k = 1 then Inl ValueError
      else if colors k = 2 then Inr colors
      else (case getitem st k of
              Inl e \<Rightarrow> Inl e
            | Inr d \<Rightarrow>
                (case dfs_cycle_subdeps st (subdeps d) (colors(k := 1)) of
                   Inl e \<Rightarrow> Inl e
                 | Inr colors' \<Rightarrow> Inr (colors'(k := 2)))))"
| "dfs_cycle_subdeps st [] colors = Inr colors"
| "dfs_cycle_subdeps st (kw # rest) colors =
     (case dfs_cycle st (func kw) colors of
        Inl e \<Rightarrow> Inl e
      | Inr colors' \<Rightarrow> dfs_cycle_subdeps st rest colors')"
  by pat_completeness auto

text \<open>
  The walk ends because every descent below a key paints one more registered key; that a
  finished sub-walk never unpaints a key is needed for the loop, and is proved on the
  function's domain first.
\<close>

definition visited :: "colors \<Rightarrow> key set" where
  "visited colors = {k. colors k = 1 \<or> colors k = 2}"

definition white :: "storage \<Rightarrow> colors \<Rightarrow> key set" where
  "white st colors = {k \<in> set (keys_of st). k \<notin> visited colors}"

lemma chain_lookup_keys_of: "chain_lookup st k = Some d \<Longrightarrow> k \<in> set (keys_of st)"
proof (induction st)
  case Nil
  then show ?case by simp
next
  case (Cons m ms)
  show ?case
  proof (cases "map_of m k")
    case None
    with Cons have "k \<in> set (keys_of ms)" by simp
    then show ?thesis by (simp add: keys_of_def)
  next
    case (Some d')
    then have "(k, d') \<in> set m" by (rule map_of_SomeD)
    then have "k \<in> fst ` set m" by force
    then show ?thesis by (simp add: keys_of_def)
  qed
qed

lemma getitem_keys_of: "getitem st k = Inr d \<Longrightarrow> k \<in> set (keys_of st)"
  by (auto simp: getitem_def chain_lookup_keys_of split: option.splits)

lemma finite_white: "finite (white st colors)"
  by (simp add: white_def)

lemma visited_paint:
  assumes "visited (colors(k := 1)) \<subseteq> visited c1"
  shows "visited colors \<subseteq> visited (c1(k := 2))"
proof
  fix x assume x: "x \<in> visited colors"
  show "x \<in> visited (c1(k := 2))"
  proof (cases "x = k")
    case True
    then show ?thesis by (simp add: visited_def)
  next
    case False
    with x have "x \<in> visited (colors(k := 1))" by (simp add: visited_def)
    with assms have "x \<in> visited c1" by blast
    with False show ?thesis by (simp add: visited_def)
  qed
qed

lemma dfs_cycle_visited_mono_dom:
  "dfs_cycle_dfs_cycle_subdeps_dom (Inl (st, k, colors)) \<Longrightarrow>
     dfs_cycle st k colors = Inr colors' \<Longrightarrow> visited colors \<subseteq> visited colors'"
  "dfs_cycle_dfs_cycle_subdeps_dom (Inr (st, kws, colors)) \<Longrightarrow>
     dfs_cycle_subdeps st kws colors = Inr colors' \<Longrightarrow> visited colors \<subseteq> visited colors'"
proof (induction st k colors and st kws colors arbitrary: colors' and colors'
       rule: dfs_cycle_dfs_cycle_subdeps.pinduct)
  case (1 st k colors)
  show ?case
  proof (cases "colors k = 1 \<or> colors k = 2")
    case True
    with 1(1,3) show ?thesis by (auto simp: dfs_cycle.psimps split: if_splits)
  next
    case False
    with 1(1,3) obtain d c1 where d: "getitem st k = Inr d"
      and c1: "dfs_cycle_subdeps st (subdeps d) (colors(k := 1)) = Inr c1"
      and c': "colors' = c1(k := 2)"
      by (auto simp: dfs_cycle.psimps split: if_splits sum.splits)
    from False have "colors k \<noteq> 1" "colors k \<noteq> 2" by auto
    from 1(2)[OF this d c1] show ?thesis unfolding c' by (rule visited_paint)
  qed
next
  case (2 st colors)
  then show ?case by (simp add: dfs_cycle_subdeps.psimps)
next
  case (3 st kw rest colors)
  from 3(1,4) obtain c1 where c1: "dfs_cycle st (func kw) colors = Inr c1"
    and r: "dfs_cycle_subdeps st rest c1 = Inr colors'"
    by (auto simp: dfs_cycle_subdeps.psimps split: sum.splits)
  from 3(2)[OF c1] 3(3)[OF c1 r] show ?case by blast
qed

termination dfs_cycle
proof (relation "inv_image (less_than <*lex*> less_than)
         (\<lambda>x. case x of Inl (st, k, colors) \<Rightarrow> (card (white st colors), 0)
                       | Inr (st, kws, colors) \<Rightarrow> (card (white st colors), Suc (length kws)))",
       goal_cases)
  case 1
  show ?case by (intro wf_inv_image wf_lex_prod wf_less_than)
next
  case (2 st k colors d)
  have "k \<in> white st colors" using 2 by (auto simp: white_def visited_def getitem_keys_of)
  moreover have "k \<notin> white st (colors(k := 1))" by (simp add: white_def visited_def)
  moreover have "white st (colors(k := 1)) \<subseteq> white st colors"
    by (auto simp: white_def visited_def)
  ultimately have "white st (colors(k := 1)) \<subset> white st colors" by blast
  then show ?case by (simp add: psubset_card_mono finite_white)
next
  case (3 st kw rest colors)
  then show ?case by simp
next
  case (4 st kw rest colors colors')
  then have "visited colors \<subseteq> visited colors'"
    by (intro dfs_cycle_visited_mono_dom(1))
  then have "white st colors' \<subseteq> white st colors" by (auto simp: white_def)
  then have "card (white st colors') \<le> card (white st colors)"
    by (intro card_mono finite_white)
  then show ?case by auto
qed

declare dfs_cycle.simps [simp del]

text \<open>
  \<^verbatim>\<open>with suppress(ValueError): dfs(key); return False\<close> and then \<^verbatim>\<open>return True\<close>:
  only the walk's own signal becomes an answer, any other exception leaves
  \<^verbatim>\<open>_has_cycle\<close> as it is.
\<close>

definition has_cycle :: "storage \<Rightarrow> key \<Rightarrow> error + bool" where
  "has_cycle st k =
     (case dfs_cycle st k (\<lambda>_. 0) of
        Inr _ \<Rightarrow> Inr False
      | Inl ValueError \<Rightarrow> Inr True
      | Inl e \<Rightarrow> Inl e)"

text \<open>
  \<^verbatim>\<open>DepStorage.__setitem__\<close>. The check runs on \<^verbatim>\<open>self.new_child({key: value})\<close>, a new
  chain in front of the same layers; only \<^verbatim>\<open>super().__setitem__\<close> writes, into
  \<^verbatim>\<open>self.maps[0]\<close>. The result is the outcome with the storage left behind.
\<close>

definition setitem :: "storage \<Rightarrow> key \<Rightarrow> dependency \<Rightarrow> (error + unit) \<times> storage" where
  "setitem st k v =
     (let copy = new_child [(k, v)] st in
      case has_cycle copy k of
        Inl e \<Rightarrow> (Inl e, st)
      | Inr True \<Rightarrow> (Inl (InvalidOperation CausesCycle), st)
      | Inr False \<Rightarrow>
          (case chain_setitem st k v of
             Inl e \<Rightarrow> (Inl e, st)
           | Inr st' \<Rightarrow> (Inr (), st')))"

subsection \<open>Values, the world outside the storage, and scope policies\<close>

text \<open>
  Factories are opaque callables. A value records which factory made it, from which
  keyword arguments, and as which invocation of the run (its serial number is the object's
  identity); \<open>Attr\<close> is an attribute read off a value. The \<open>world\<close> is what
  resolution changes outside the storage: the cached values of the Singleton scope
  objects and the factories invoked so far, in order. Factories that raise are outside
  the model.
\<close>

datatype val = Made nat key "(string \<times> val) list" | Attr val string

record world =
  cached :: "(nat \<times> val) list"
  calls :: "key list"

text \<open>
  Modelled from the spec: \<^verbatim>\<open>scopes.py\<close> is not among the sources. The Factory
  variant always invokes the wrapped factory; the Singleton-like variant stores the first
  result and returns it afterwards without invoking again. \<open>acall\<close> awaits an
  asynchronous factory and otherwise behaves as \<open>call\<close>; awaiting is obtaining the
  value, the model has no interleaving.
\<close>

definition is_async_scope :: "scope \<Rightarrow> bool" where
  "is_async_scope sc = coroutine (factory sc)"

definition invoke :: "scope \<Rightarrow> (string \<times> val) list \<Rightarrow> world \<Rightarrow> val \<times> world" where
  "invoke sc kwargs w =
     (Made (length (calls w)) (ident (factory sc)) kwargs,
      w\<lparr>calls := calls w @ [ident (factory sc)]\<rparr>)"

definition scope_call :: "scope \<Rightarrow> (string \<times> val) list \<Rightarrow> world \<Rightarrow> val \<times> world" where
  "scope_call sc kwargs w =
     (case kind sc of
        Factory \<Rightarrow> invoke sc kwargs w
      | Singleton \<Rightarrow>
          (case map_of (cached w) (sid sc) of
             Some v \<Rightarrow> (v, w)
           | None \<Rightarrow>
               (case invoke sc kwargs w of
                  (v, w') \<Rightarrow> (v, w'\<lparr>cached := AList.update (sid sc) v (cached w')\<rparr>))))"

definition scope_acall :: "scope \<Rightarrow> (string \<times> val) list \<Rightarrow> world \<Rightarrow> val \<times> world" where
  "scope_acall sc kwargs w = scope_call sc kwargs w"

subsection \<open>The two-phase resolution walk\<close>

text \<open>
  Modelled from the spec: \<^verbatim>\<open>dependency.py\<close> is not among the sources. A
  Partially-Resolved Node is \<open>{resolved, under_resolving, unresolved}\<close> beside its scope;
  \<^verbatim>\<open>partially_resolved()\<close> makes the working copy of a stored node,
  \<^verbatim>\<open>kwarg.copy(func=subdep)\<close> is \<open>KWargCopy\<close>, \<^verbatim>\<open>kwarg.getattrs\<close> applies the
  attribute path. \<open>is_async\<close> is the node's own factory being asynchronous and
  \<open>is_resolved\<close> is having no pending and no unresolved kwarg, the two conditions of
  phase 1 in the spec. Calling a node materialises it through its scope; a synchronous
  call of an asynchronous or unfinished node is the invalid access of the spec's
  \<open>resolve\<close>.
\<close>

definition getattrs :: "string list \<Rightarrow> val \<Rightarrow> val" where
  "getattrs path v = foldl Attr v path"

datatype part =
  PartResolvedDependency (pscope: scope) (resolved: "(string \<times> val) list")
    (under_resolving: "pending list") (unresolved: "kwarg list")
and pending = KWargCopy (pname: string) (pfunc: part) (pattrs: "string list")

datatype outcome = Value val | Partial part

definition partially_resolved :: "dependency \<Rightarrow> part" where
  "partially_resolved d = PartResolvedDependency (scope d) [] [] (subdeps d)"

definition is_async :: "part \<Rightarrow> bool" where
  "is_async dep = is_async_scope (pscope dep)"

definition is_resolved :: "part \<Rightarrow> bool" where
  "is_resolved dep = (under_resolving dep = [] \<and> unresolved dep = [])"

definition part_call :: "part \<Rightarrow> world \<Rightarrow> (error + val) \<times> world" where
  "part_call dep w =
     (if is_async dep \<or> \<not> is_resolved dep then (Inl (InvalidOperation UseAget), w)
      else (case scope_call (pscope dep) (resolved dep) w of (v, w') \<Rightarrow> (Inr v, w')))"

definition part_acall :: "part \<Rightarrow> world \<Rightarrow> val \<times> world" where
  "part_acall dep w = scope_acall (pscope dep) (resolved dep) w"

definition append_under_resolving :: "part \<Rightarrow> pending \<Rightarrow> part" where
  "append_under_resolving dep p =
     PartResolvedDependency (pscope dep) (resolved dep) (under_resolving dep @ [p]) (unresolved dep)"

definition set_resolved :: "part \<Rightarrow> string \<Rightarrow> val \<Rightarrow> part" where
  "set_resolved dep n v =
     PartResolvedDependency (pscope dep) (AList.update n v (resolved dep)) (under_resolving dep)
       (unresolved dep)"

definition clear_unresolved :: "part \<Rightarrow> part" where
  "clear_unresolved dep = PartResolvedDependency (pscope dep) (resolved dep) (under_resolving dep) []"

text \<open>
  \<^verbatim>\<open>DepStorage._resolve_sync\<close>. The inner \<^verbatim>\<open>dfs\<close> follows the storage and need not
  end on a cyclic one, so it runs on fuel, one unit per nested call; \<open>None\<close> is running
  out. The \<^verbatim>\<open>for\<close> loop over \<^verbatim>\<open>dependency.unresolved\<close> is \<open>sync_kwargs\<close>. The
  result carries the world, also when an exception leaves the walk.
\<close>

fun sync_dfs :: "nat \<Rightarrow> storage \<Rightarrow> part \<Rightarrow> bool \<Rightarrow> world \<Rightarrow> ((error + outcome) \<times> world) option"
  and sync_kwargs :: "nat \<Rightarrow> storage \<Rightarrow> kwarg list \<Rightarrow> part \<Rightarrow> world \<Rightarrow> ((error + part) \<times> world) option"
where
  "sync_dfs 0 st dep top_call w = None"
| "sync_dfs (Suc n) st dep top_call w =
     (case sync_kwargs n st (unresolved dep) dep w of
        None \<Rightarrow> None
      | Some (Inl e, w') \<Rightarrow> Some (Inl e, w')
      | Some (Inr dep', w') \<Rightarrow>
          (let dep'' = clear_unresolved dep' in
           if top_call \<or> is_async dep'' \<or> \<not> is_resolved dep'' then Some (Inr (Partial dep''), w')
           else (case part_call dep'' w' of
                   (Inl e, w'') \<Rightarrow> Some (Inl e, w'')
                 | (Inr v, w'') \<Rightarrow> Some (Inr (Value v), w''))))"
| "sync_kwargs n st [] dep w = Some (Inr dep, w)"
| "sync_kwargs n st (kw # rest) dep w =
     (case getitem st (func kw) of
        Inl e \<Rightarrow> Some (Inl e, w)
      | Inr d \<Rightarrow>
          (case sync_dfs n st (partially_resolved d) False w of
             None \<Rightarrow> None
           | Some (Inl e, w') \<Rightarrow> Some (Inl e, w')
           | Some (Inr (Partial subdep), w') \<Rightarrow>
               sync_kwargs n st rest
                 (append_under_resolving dep (KWargCopy (name kw) subdep (attrs kw))) w'
           | Some (Inr (Value subdep), w') \<Rightarrow>
               sync_kwargs n st rest (set_resolved dep (name kw) (getattrs (attrs kw) subdep)) w'))"

text \<open>
  \<^verbatim>\<open>DepStorage._resolve_async\<close>. Its inner \<^verbatim>\<open>dfs\<close> recurses over the pending
  kwargs of a node, a finite tree. Every recursive call passes \<^verbatim>\<open>top=False\<close> and
  returns the awaited value (\<open>async_inner\<close>); the one call with \<^verbatim>\<open>top=True\<close> returns
  the node (\<open>async_top\<close>).
\<close>

fun async_inner :: "part \<Rightarrow> world \<Rightarrow> val \<times> world"
  and async_kwargs :: "pending list \<Rightarrow> (string \<times> val) list \<Rightarrow> world \<Rightarrow> (string \<times> val) list \<times> world"
where
  "async_inner (PartResolvedDependency sc res pend unres) w =
     (case async_kwargs pend res w of
        (res', w') \<Rightarrow> part_acall (PartResolvedDependency sc res' [] unres) w')"
| "async_kwargs [] res w = (res, w)"
| "async_kwargs (KWargCopy n subdep path # rest) res w =
     (case async_inner subdep w of
        (v, w') \<Rightarrow> async_kwargs rest (AList.update n (getattrs path v) res) w')"

text \<open>
  The entry points. \<^verbatim>\<open>TypeError\<close> and \<^verbatim>\<open>AttributeError\<close> stand where the source
  would use a plain value as a node; the top call of phase 1 never returns one.
\<close>

definition resolve_sync :: "nat \<Rightarrow> storage \<Rightarrow> key \<Rightarrow> world \<Rightarrow> ((error + outcome) \<times> world) option" where
  "resolve_sync n st k w =
     (case getitem st k of
        Inl e \<Rightarrow> Some (Inl e, w)
      | Inr d \<Rightarrow> sync_dfs n st (partially_resolved d) True w)"

definition async_top :: "part \<Rightarrow> world \<Rightarrow> part \<times> world" where
  "async_top dep w =
     (case async_kwargs (under_resolving dep) (resolved dep) w of
        (res', w') \<Rightarrow> (PartResolvedDependency (pscope dep) res' [] (unresolved dep), w'))"

definition resolve_async :: "nat \<Rightarrow> storage \<Rightarrow> key \<Rightarrow> world \<Rightarrow> ((error + part) \<times> world) option" where
  "resolve_async n st k w =
     (case resolve_sync n st k w of
        None \<Rightarrow> None
      | Some (Inl e, w') \<Rightarrow> Some (Inl e, w')
      | Some (Inr (Value v), w') \<Rightarrow> Some (Inl AttributeError, w')
      | Some (Inr (Partial dep), w') \<Rightarrow>
          (case async_top dep w' of (dep', w'') \<Rightarrow> Some (Inr dep', w'')))"

definition resolve :: "nat \<Rightarrow> storage \<Rightarrow> key \<Rightarrow> world \<Rightarrow> ((error + val) \<times> world) option" where
  "resolve n st k w =
     (case resolve_sync n st k w of
        None \<Rightarrow> None
      | Some (Inl e, w') \<Rightarrow> Some (Inl e, w')
      | Some (Inr (Value v), w') \<Rightarrow> Some (Inl TypeError, w')
      | Some (Inr (Partial dep), w') \<Rightarrow> Some (part_call dep w'))"

definition aresolve :: "nat \<Rightarrow> storage \<Rightarrow> key \<Rightarrow> world \<Rightarrow> ((error + val) \<times> world) option" where
  "aresolve n st k w =
     (case resolve_async n st k w of
        None \<Rightarrow> None
      | Some (Inl e, w') \<Rightarrow> Some (Inl e, w')
      | Some (Inr dep, w') \<Rightarrow>
          Some (if is_async dep then (case part_acall dep w' of (v, w'') \<Rightarrow> (Inr v, w''))
                else part_call dep w'))"

subsection \<open>The TinyDI container\<close>

text \<open>
  Modelled from the spec: the \<^verbatim>\<open>Dependency\<close> class \<^verbatim>\<open>di.py\<close> builds is not among
  the sources. Its objects hold a scope and, by keyword, the dependency objects looked
  up at registration. \<open>is_async\<close> is true iff the node's own factory is asynchronous or
  a kwarg's resolution chain contains an asynchronous factory; \<open>call\<close> and \<open>acall\<close>
  resolve the kwargs in order and materialise the node through its scope.
\<close>

datatype di_dependency = Dependency (dscope: scope) (kwargs_of: "(string \<times> di_dependency) list")

fun di_is_async :: "di_dependency \<Rightarrow> bool" where
  "di_is_async (Dependency sc kws) = (is_async_scope sc \<or> list_ex (\<lambda>p. di_is_async (snd p)) kws)"

fun di_call :: "di_dependency \<Rightarrow> world \<Rightarrow> val \<times> world"
  and di_call_kwargs :: "(string \<times> di_dependency) list \<Rightarrow> world \<Rightarrow> (string \<times> val) list \<times> world"
where
  "di_call (Dependency sc kws) w =
     (case di_call_kwargs kws w of (kwargs, w') \<Rightarrow> scope_call sc kwargs w')"
| "di_call_kwargs [] w = ([], w)"
| "di_call_kwargs ((n, d) # rest) w =
     (case di_call d w of
        (v, w1) \<Rightarrow> (case di_call_kwargs rest w1 of (kwargs, w2) \<Rightarrow> ((n, v) # kwargs, w2)))"

fun di_acall :: "di_dependency \<Rightarrow> world \<Rightarrow> val \<times> world"
  and di_acall_kwargs :: "(string \<times> di_dependency) list \<Rightarrow> world \<Rightarrow> (string \<times> val) list \<times> world"
where
  "di_acall (Dependency sc kws) w =
     (case di_acall_kwargs kws w of (kwargs, w') \<Rightarrow> scope_acall sc kwargs w')"
| "di_acall_kwargs [] w = ([], w)"
| "di_acall_kwargs ((n, d) # rest) w =
     (case di_acall d w of
        (v, w1) \<Rightarrow> (case di_acall_kwargs rest w1 of (kwargs, w2) \<Rightarrow> ((n, v) # kwargs, w2)))"

text \<open>
  \<^verbatim>\<open>di.py\<close>. The container's state is the chain \<^verbatim>\<open>_deps\<close>. A registered callable
  shows its \<^verbatim>\<open>__annotations__\<close> (for a class those of \<^verbatim>\<open>__init__\<close>, when that is a
  Python function); \<^verbatim>\<open>Annotated[T, f]\<close> names the factory \<open>f\<close>, and \<open>T\<close> itself when
  the marker is \<^verbatim>\<open>...\<close>. \<open>callable\<close> is Python's builtin, a parameter.
  \<open>kwargs_to_inject\<close> keeps the factories of the parameters the caller did not bind;
  at registration nothing is bound. \<open>override\<close> brackets a block between
  \<^verbatim>\<open>new_child()\<close> and \<^verbatim>\<open>parents\<close>; \<open>register_block\<close> is a block of registrations
  that the first exception leaves.
\<close>

record tinydi =
  deps :: "(key, di_dependency) chainmap"

definition tinydi_init :: tinydi where
  "tinydi_init = \<lparr>deps = [[]]\<rparr>"

definition get_factory :: "tinydi \<Rightarrow> key \<Rightarrow> error + di_dependency" where
  "get_factory di k =
     (case chain_lookup (deps di) k of Some d \<Rightarrow> Inr d | None \<Rightarrow> Inl (UnknownDependency k))"

definition di_contains :: "tinydi \<Rightarrow> key \<Rightarrow> bool" where
  "di_contains di k = contains (deps di) k"

fun injectable_factories :: "tinydi \<Rightarrow> (string \<times> annotation) list \<Rightarrow> error + (string \<times> di_dependency) list" where
  "injectable_factories di [] = Inr []"
| "injectable_factories di ((a, Plain) # rest) = injectable_factories di rest"
| "injectable_factories di ((a, Annotated t marker) # rest) =
     (case get_factory di (case marker of Some f \<Rightarrow> f | None \<Rightarrow> t) of
        Inl e \<Rightarrow> Inl e
      | Inr d \<Rightarrow>
          (case injectable_factories di rest of
             Inl e \<Rightarrow> Inl e
           | Inr fs \<Rightarrow> Inr ((a, d) # fs)))"

definition get_factories_for_func :: "tinydi \<Rightarrow> pyfunc \<Rightarrow> error + (string \<times> di_dependency) list" where
  "get_factories_for_func di f =
     (case shape f of
        PyClass None \<Rightarrow> Inr []
      | PyClass (Some anns) \<Rightarrow> injectable_factories di anns
      | PyFunction anns \<Rightarrow> injectable_factories di anns)"

definition kwargs_to_inject :: "string list \<Rightarrow> (string \<times> 'a) list \<Rightarrow> (string \<times> 'a) list" where
  "kwargs_to_inject arguments factories = filter (\<lambda>(k, v). k \<notin> set arguments) factories"

definition dict :: "('a \<times> 'b) list \<Rightarrow> ('a \<times> 'b) list" where
  "dict pairs = foldl (\<lambda>m (k, v). AList.update k v m) [] pairs"

datatype regvalue = IsScope scope | NotScope pyfunc

definition default_scope_class :: "pyfunc \<Rightarrow> scope" where
  "default_scope_class f = \<lparr>kind = Factory, factory = f, sid = ident f\<rparr>"

definition di_setitem :: "(key \<Rightarrow> bool) \<Rightarrow> tinydi \<Rightarrow> key \<Rightarrow> regvalue \<Rightarrow> (error + unit) \<times> tinydi" where
  "di_setitem callable di k v =
     (if \<not> callable k then (Inl (InvalidOperation (NonCallable k)), di)
      else
        (let sc = (case v of IsScope s \<Rightarrow> s | NotScope f \<Rightarrow> default_scope_class f) in
         case get_factories_for_func di (factory sc) of
           Inl e \<Rightarrow> (Inl e, di)
         | Inr injectables \<Rightarrow>
             (let kwargs = dict (kwargs_to_inject [] injectables) in
              case chain_setitem (deps di) k (Dependency sc kwargs) of
                Inl e \<Rightarrow> (Inl e, di)
              | Inr m \<Rightarrow> (Inr (), di\<lparr>deps := m\<rparr>))))"

definition di_getitem :: "tinydi \<Rightarrow> key \<Rightarrow> world \<Rightarrow> (error + val) \<times> world" where
  "di_getitem di k w =
     (case get_factory di k of
        Inl e \<Rightarrow> (Inl e, w)
      | Inr d \<Rightarrow>
          if di_is_async d then (Inl (InvalidOperation UseAget), w)
          else (case di_call d w of (v, w') \<Rightarrow> (Inr v, w')))"

definition aget :: "tinydi \<Rightarrow> key \<Rightarrow> world \<Rightarrow> (error + val) \<times> world" where
  "aget di k w =
     (case get_factory di k of
        Inl e \<Rightarrow> (Inl e, w)
      | Inr d \<Rightarrow>
          if di_is_async d then (case di_acall d w of (v, w') \<Rightarrow> (Inr v, w'))
          else (case di_call d w of (v, w') \<Rightarrow> (Inr v, w')))"

definition override :: "tinydi \<Rightarrow> (tinydi \<Rightarrow> 'r \<times> tinydi) \<Rightarrow> 'r \<times> tinydi" where
  "override di body =
     (case body (di\<lparr>deps := new_child [] (deps di)\<rparr>) of
        (r, di') \<Rightarrow> (r, di'\<lparr>deps := parents (deps di')\<rparr>))"

fun register_block :: "(key \<Rightarrow> bool) \<Rightarrow> (key \<times> regvalue) list \<Rightarrow> tinydi \<Rightarrow> (error + unit) \<times> tinydi" where
  "register_block callable [] di = (Inr (), di)"
| "register_block callable ((k, v) # rest) di =
     (case di_setitem callable di k v of
        (Inl e, di') \<Rightarrow> (Inl e, di')
      | (Inr u, di') \<Rightarrow> register_block callable rest di')"

section \<open>Notions of the specification\<close>

text \<open>
  The graph the spec speaks of: an edge from a registered key to the target key of each
  of its node's kwargs, as the chain's lookup sees the node.
\<close>

definition edges :: "storage \<Rightarrow> (key \<times> key) set" where
  "edges st = {(k, k'). \<exists>d. chain_lookup st k = Some d \<and> k' \<in> func ` set (subdeps d)}"

definition cycle_reachable :: "storage \<Rightarrow> key \<Rightarrow> bool" where
  "cycle_reachable st k = (\<exists>x. (k, x) \<in> (edges st)\<^sup>* \<and> (x, x) \<in> (edges st)\<^sup>+)"

definition dangling_reachable :: "storage \<Rightarrow> key \<Rightarrow> bool" where
  "dangling_reachable st k = (\<exists>x. (k, x) \<in> (edges st)\<^sup>* \<and> chain_lookup st x = None)"

text \<open>
  A storage is closed when every kwarg of every registered node targets a registered
  key. An asynchronous factory is reachable from a key when a key of its closure is
  registered with one.
\<close>

definition closed :: "storage \<Rightarrow> bool" where
  "closed st = list_all (\<lambda>k. case chain_lookup st k of None \<Rightarrow> True
                            | Some d \<Rightarrow> list_all (\<lambda>kw. contains st (func kw)) (subdeps d)) (keys_of st)"


text \<open>
  For the container of \<^verbatim>\<open>di.py\<close>: the scopes in the closure of a dependency object, and
  what \<^verbatim>\<open>TinyDI.__setitem__\<close> reads off the value it registers, namely the scope (the
  value itself, or the default scope around it), the annotations of its callable, and the
  factory an annotation names.
\<close>

fun scopes_of :: "di_dependency \<Rightarrow> scope set" where
  "scopes_of (Dependency sc kws) = insert sc (\<Union>p \<in> set kws. scopes_of (snd p))"

definition scope_of_value :: "regvalue \<Rightarrow> scope" where
  "scope_of_value v = (case v of IsScope s \<Rightarrow> s | NotScope f \<Rightarrow> default_scope_class f)"

definition annotations_read :: "pyfunc \<Rightarrow> (string \<times> annotation) list" where
  "annotations_read f =
     (case shape f of PyClass None \<Rightarrow> [] | PyClass (Some anns) \<Rightarrow> anns | PyFunction anns \<Rightarrow> anns)"

definition factory_named :: "annotation \<Rightarrow> key option" where
  "factory_named a =
     (case a of Plain \<Rightarrow> None
      | Annotated t marker \<Rightarrow> Some (case marker of Some f \<Rightarrow> f | None \<Rightarrow> t))"

text \<open>
  A later world extends an earlier one: the factories invoked so far are a prefix of the
  later ones, and a cached value stays cached. Every step of the engine extends the
  world.
\<close>

definition extends :: "world \<Rightarrow> world \<Rightarrow> bool" where
  "extends w w' =
     ((\<exists>ys. calls w' = calls w @ ys)
      \<and> (\<forall>i v. map_of (cached w) i = Some v \<longrightarrow> map_of (cached w') i = Some v))"



text \<open>
  Notions the proofs use: the gray and the black keys of a colouring and the invariant
  of the black ones; containers that differ in the innermost layer only; and kwarg lists
  on which the loop of phase 1 ends once the fuel is enough.
\<close>

definition gray :: "colors \<Rightarrow> key set" where
  "gray colors = {k. colors k = 1}"

definition black :: "colors \<Rightarrow> key set" where
  "black colors = {k. colors k = 2}"

definition black_ok :: "storage \<Rightarrow> colors \<Rightarrow> bool" where
  "black_ok st colors =
     (\<forall>b \<in> black colors. chain_lookup st b \<noteq> None \<and> edges st `` {b} \<subseteq> black colors
        \<and> (b, b) \<notin> (edges st)\<^sup>+)"

definition same_tail :: "tinydi \<Rightarrow> tinydi \<Rightarrow> bool" where
  "same_tail di di' = (\<exists>m. di' = di\<lparr>deps := m\<rparr> \<and> drop 1 m = drop 1 (deps di) \<and> (deps di \<noteq> [] \<longrightarrow> m \<noteq> []))"

definition walk_ends :: "storage \<Rightarrow> kwarg list \<Rightarrow> bool" where
  "walk_ends st kws = (\<exists>N. \<forall>n \<ge> N. \<forall>dep w. sync_kwargs n st kws dep w \<noteq> None)"

section \<open>Example data\<close>

text \<open>
  Constructors and small storages for the closed theorems: synchronous and asynchronous
  callables without annotations, Factory and Singleton scopes around them, kwargs without
  attribute path, and the empty world.
\<close>

definition sync_func :: "key \<Rightarrow> pyfunc" where
  "sync_func k = \<lparr>ident = k, coroutine = False, shape = PyFunction []\<rparr>"

definition async_func :: "key \<Rightarrow> pyfunc" where
  "async_func k = \<lparr>ident = k, coroutine = True, shape = PyFunction []\<rparr>"

definition arg :: "string \<Rightarrow> key \<Rightarrow> kwarg" where
  "arg n k = \<lparr>name = n, func = k, attrs = []\<rparr>"

definition node :: "scope \<Rightarrow> kwarg list \<Rightarrow> dependency" where
  "node sc kws = \<lparr>scope = sc, subdeps = kws\<rparr>"

definition plain :: "key \<Rightarrow> scope" where
  "plain k = \<lparr>kind = Factory, factory = sync_func k, sid = k\<rparr>"

definition coro :: "key \<Rightarrow> scope" where
  "coro k = \<lparr>kind = Factory, factory = async_func k, sid = k\<rparr>"


lemmas ex_defs = sync_func_def async_func_def arg_def node_def plain_def

definition start :: world where
  "start = \<lparr>cached = [], calls = []\<rparr>"

definition chain_abcd :: storage where
  "chain_abcd = [[(0, node (plain 0) []), (1, node (plain 1) [arg ''a'' 0]),
                  (2, node (coro 2) [arg ''b'' 1]), (3, node (plain 3) [arg ''c'' 2])]]"


definition two_cycle :: storage where
  "two_cycle = [[(0, node (plain 0) [arg ''y'' 1]), (1, node (plain 1) [arg ''x'' 0])]]"

definition self_loop_after_gap :: dependency where
  "self_loop_after_gap = node (plain 0) [arg ''missing'' 1, arg ''self'' 0]"

definition y_then_x :: storage where
  "y_then_x = [[(1, node (plain 1) []), (0, node (plain 0) [arg ''y'' 1])]]"

definition dangling_pair :: storage where
  "dangling_pair = [[(0, node (plain 0) [arg ''a'' 1])]]"


definition shadowing :: storage where
  "shadowing = [[(0, node (plain 5) [])], [(0, node (plain 0) [arg ''a'' 1]), (2, node (plain 2) [arg ''z'' 0])]]"

definition needs_missing :: dependency where
  "needs_missing = node (plain 0) [arg ''a'' 1]"

definition self_loop_before_gap :: dependency where
  "self_loop_before_gap = node (plain 0) [arg ''self'' 0, arg ''missing'' 1]"




definition callable_all :: "key \<Rightarrow> bool" where
  "callable_all k = True"

definition one_registered :: tinydi where
  "one_registered = \<lparr>deps = [[(0, Dependency (plain 0) [])]]\<rparr>"

definition wants_zero :: pyfunc where
  "wants_zero = \<lparr>ident = 1, coroutine = False, shape = PyFunction [(''a'', Annotated 7 (Some 0))]\<rparr>"

definition async_below :: tinydi where
  "async_below = \<lparr>deps = [[(0, Dependency (coro 0) []),
                            (1, Dependency (plain 1) [(''a'', Dependency (coro 0) [])])]]\<rparr>"

lemmas eng_defs = resolve_sync_def async_top_def resolve_async_def resolve_def aresolve_def
  getitem_def partially_resolved_def is_async_def is_resolved_def part_call_def part_acall_def
  scope_call_def scope_acall_def invoke_def is_async_scope_def getattrs_def
  append_under_resolving_def set_resolved_def clear_unresolved_def start_def coro_def ex_defs

section \<open>Correctness of the cycle walk\<close>

text \<open>
  Two invariants carry the proof. The black keys are registered, closed under the edges
  and on no cycle; and every gray key reaches the key the walk is at, so meeting a gray
  key closes a cycle. A walk that returns leaves the gray keys as they were.
\<close>

lemma getitem_Inr_iff: "getitem st k = Inr d \<longleftrightarrow> chain_lookup st k = Some d"
  by (simp add: getitem_def split: option.splits)

lemma getitem_Inl_iff: "getitem st k = Inl e \<longleftrightarrow> chain_lookup st k = None \<and> e = UnknownDependency k"
  by (auto simp: getitem_def split: option.splits)

lemma edgesI: "chain_lookup st k = Some d \<Longrightarrow> kw \<in> set (subdeps d) \<Longrightarrow> (k, func kw) \<in> edges st"
  by (auto simp: edges_def)

lemma edgesE:
  assumes "(k, k') \<in> edges st"
  obtains d kw where "chain_lookup st k = Some d" "kw \<in> set (subdeps d)" "k' = func kw"
  using assms by (auto simp: edges_def)

lemma dfs_cycle_colors:
  "dfs_cycle st k colors = Inr colors' \<Longrightarrow>
     gray colors' = gray colors \<and> black colors \<subseteq> black colors' \<and> k \<in> black colors'"
  "dfs_cycle_subdeps st kws colors = Inr colors' \<Longrightarrow>
     gray colors' = gray colors \<and> black colors \<subseteq> black colors' \<and> func ` set kws \<subseteq> black colors'"
proof (induction st k colors and st kws colors arbitrary: colors' and colors'
       rule: dfs_cycle_dfs_cycle_subdeps.induct)
  case (1 st k colors)
  show ?case
  proof (cases "colors k = 1 \<or> colors k = 2")
    case True
    with 1(2) show ?thesis by (auto simp: dfs_cycle.simps black_def split: if_splits)
  next
    case False
    with 1(2) obtain d c1 where d: "getitem st k = Inr d"
      and c1: "dfs_cycle_subdeps st (subdeps d) (colors(k := 1)) = Inr c1"
      and c': "colors' = c1(k := 2)"
      by (auto simp: dfs_cycle.simps split: if_splits sum.splits)
    from False have nk: "colors k \<noteq> 1" "colors k \<noteq> 2" by auto
    from 1(1)[OF nk d c1]
    have g: "gray c1 = gray (colors(k := 1))" and b: "black (colors(k := 1)) \<subseteq> black c1"
      by blast+
    have "gray colors' = gray colors"
      using g nk unfolding c' gray_def by (auto split: if_splits)
    moreover have "black colors \<subseteq> black colors'"
      using b nk unfolding c' black_def by (auto split: if_splits)
    moreover have "k \<in> black colors'" by (simp add: c' black_def)
    ultimately show ?thesis by blast
  qed
next
  case (2 st colors)
  then show ?case by simp
next
  case (3 st kw rest colors)
  from 3(3) obtain c1 where c1: "dfs_cycle st (func kw) colors = Inr c1"
    and r: "dfs_cycle_subdeps st rest c1 = Inr colors'"
    by (auto split: sum.splits)
  from 3(1)[OF c1] 3(2)[OF c1 r] show ?case by auto
qed

lemma black_closed:
  assumes "black_ok st colors" "(b, x) \<in> (edges st)\<^sup>*" "b \<in> black colors"
  shows "x \<in> black colors"
  using assms(2,3,1)
  by (induction rule: rtrancl_induct) (auto simp: black_ok_def)

lemma black_ok_paint:
  assumes ok: "black_ok st c1" and d: "chain_lookup st k = Some d"
    and sub: "func ` set (subdeps d) \<subseteq> black c1" and k: "k \<notin> black c1"
  shows "black_ok st (c1(k := 2))"
proof -
  have bl: "black (c1(k := 2)) = insert k (black c1)" by (auto simp: black_def)
  have succ: "edges st `` {k} \<subseteq> black c1"
    using d sub by (auto simp: edges_def)
  have "(k, k) \<notin> (edges st)\<^sup>+"
  proof
    assume "(k, k) \<in> (edges st)\<^sup>+"
    then obtain s where s: "(k, s) \<in> edges st" "(s, k) \<in> (edges st)\<^sup>*"
      by (meson tranclD)
    with succ have "s \<in> black c1" by blast
    with black_closed[OF ok s(2)] have "k \<in> black c1" by blast
    with k show False by simp
  qed
  with ok d succ show ?thesis
    unfolding black_ok_def bl by auto
qed

lemma dfs_cycle_black_ok:
  "dfs_cycle st k colors = Inr colors' \<Longrightarrow> black_ok st colors \<Longrightarrow> black_ok st colors'"
  "dfs_cycle_subdeps st kws colors = Inr colors' \<Longrightarrow> black_ok st colors \<Longrightarrow> black_ok st colors'"
proof (induction st k colors and st kws colors arbitrary: colors' and colors'
       rule: dfs_cycle_dfs_cycle_subdeps.induct)
  case (1 st k colors)
  show ?case
  proof (cases "colors k = 1 \<or> colors k = 2")
    case True
    with 1(2,3) show ?thesis by (auto simp: dfs_cycle.simps split: if_splits)
  next
    case False
    with 1(2) obtain d c1 where d: "getitem st k = Inr d"
      and c1: "dfs_cycle_subdeps st (subdeps d) (colors(k := 1)) = Inr c1"
      and c': "colors' = c1(k := 2)"
      by (auto simp: dfs_cycle.simps split: if_splits sum.splits)
    from False have nk: "colors k \<noteq> 1" "colors k \<noteq> 2" by auto
    have "black (colors(k := 1)) = black colors" using nk by (auto simp: black_def)
    with 1(3) have "black_ok st (colors(k := 1))" by (simp add: black_ok_def)
    from 1(1)[OF nk d c1 this] have ok1: "black_ok st c1" .
    from dfs_cycle_colors(2)[OF c1]
    have g: "gray c1 = gray (colors(k := 1))" and sub: "func ` set (subdeps d) \<subseteq> black c1"
      by auto
    have "k \<in> gray c1" unfolding g by (simp add: gray_def)
    then have "k \<notin> black c1" by (simp add: gray_def black_def)
    with ok1 d sub show ?thesis unfolding c'
      by (intro black_ok_paint) (auto simp: getitem_Inr_iff)
  qed
next
  case (2 st colors)
  then show ?case by simp
next
  case (3 st kw rest colors)
  from 3(3) obtain c1 where c1: "dfs_cycle st (func kw) colors = Inr c1"
    and r: "dfs_cycle_subdeps st rest c1 = Inr colors'"
    by (auto split: sum.splits)
  from 3(1)[OF c1 3(4)] 3(2)[OF c1 r] show ?case by auto
qed

lemma dfs_cycle_error:
  "dfs_cycle st k colors = Inl e \<Longrightarrow> \<forall>g \<in> gray colors. (g, k) \<in> (edges st)\<^sup>+ \<Longrightarrow>
     (e = ValueError \<and> (\<exists>x. (k, x) \<in> (edges st)\<^sup>* \<and> (x, x) \<in> (edges st)\<^sup>+)) \<or>
     (\<exists>u. e = UnknownDependency u \<and> (k, u) \<in> (edges st)\<^sup>* \<and> chain_lookup st u = None)"
  "dfs_cycle_subdeps st kws colors = Inl e \<Longrightarrow>
     \<forall>g \<in> gray colors. \<forall>kw \<in> set kws. (g, func kw) \<in> (edges st)\<^sup>+ \<Longrightarrow>
     (e = ValueError \<and> (\<exists>kw \<in> set kws. \<exists>x. (func kw, x) \<in> (edges st)\<^sup>* \<and> (x, x) \<in> (edges st)\<^sup>+)) \<or>
     (\<exists>u. e = UnknownDependency u \<and> (\<exists>kw \<in> set kws. (func kw, u) \<in> (edges st)\<^sup>*) \<and> chain_lookup st u = None)"
proof (induction st k colors and st kws colors arbitrary: e and e
       rule: dfs_cycle_dfs_cycle_subdeps.induct)
  case (1 st k colors)
  show ?case
  proof (cases "colors k = 1")
    case True
    then have "k \<in> gray colors" by (simp add: gray_def)
    with 1(3) have "(k, k) \<in> (edges st)\<^sup>+" by blast
    moreover from True 1(2) have "e = ValueError" by (simp add: dfs_cycle.simps)
    ultimately show ?thesis by blast
  next
    case False
    with 1(2) have nk: "colors k \<noteq> 1" "colors k \<noteq> 2"
      by (auto simp: dfs_cycle.simps split: if_splits)
    show ?thesis
    proof (cases "getitem st k")
      case (Inl e')
      with nk 1(2) have "e = e'" by (simp add: dfs_cycle.simps)
      with Inl show ?thesis by (auto simp: getitem_Inl_iff)
    next
      case (Inr d)
      with nk 1(2) have sub: "dfs_cycle_subdeps st (subdeps d) (colors(k := 1)) = Inl e"
        by (auto simp: dfs_cycle.simps split: sum.splits)
      have step: "(k, func kw) \<in> edges st" if "kw \<in> set (subdeps d)" for kw
        using Inr that by (auto simp: getitem_Inr_iff intro: edgesI)
      have pre: "\<forall>g \<in> gray (colors(k := 1)). \<forall>kw \<in> set (subdeps d). (g, func kw) \<in> (edges st)\<^sup>+"
      proof (intro ballI)
        fix g kw assume g: "g \<in> gray (colors(k := 1))" and kw: "kw \<in> set (subdeps d)"
        show "(g, func kw) \<in> (edges st)\<^sup>+"
        proof (cases "g = k")
          case True
          with step[OF kw] show ?thesis by blast
        next
          case False
          with g have "g \<in> gray colors" by (simp add: gray_def)
          with 1(3) have "(g, k) \<in> (edges st)\<^sup>+" by blast
          with step[OF kw] show ?thesis by (meson trancl.trancl_into_trancl)
        qed
      qed
      have lift: "(k, x) \<in> (edges st)\<^sup>*" if "kw \<in> set (subdeps d)" "(func kw, x) \<in> (edges st)\<^sup>*" for kw x
        using step[OF that(1)] that(2) by (rule converse_rtrancl_into_rtrancl)
      from 1(1)[OF nk Inr sub pre] lift show ?thesis
        by blast
    qed
  qed
next
  case (2 st colors)
  then show ?case by simp
next
  case (3 st kw rest colors)
  show ?case
  proof (cases "dfs_cycle st (func kw) colors")
    case (Inl e')
    with 3(3) have "e = e'" by simp
    with Inl 3(1)[of e'] 3(4) show ?thesis by auto
  next
    case (Inr c1)
    with 3(3) have r: "dfs_cycle_subdeps st rest c1 = Inl e" by simp
    from dfs_cycle_colors(1)[OF Inr] have "gray c1 = gray colors" by simp
    with 3(4) have "\<forall>g \<in> gray c1. \<forall>kw \<in> set rest. (g, func kw) \<in> (edges st)\<^sup>+" by simp
    from 3(2)[OF Inr r this] show ?thesis by auto
  qed
qed

section \<open>Registration and the cycle check\<close>

lemma closed_edge:
  assumes "closed st" "(k, k') \<in> edges st"
  shows "chain_lookup st k' \<noteq> None"
proof -
  from assms(2) obtain d kw where d: "chain_lookup st k = Some d" and kw: "kw \<in> set (subdeps d)"
    and k': "k' = func kw" by (rule edgesE)
  from d have "k \<in> set (keys_of st)" by (rule chain_lookup_keys_of)
  with assms(1) d kw show ?thesis
    by (auto simp: closed_def list_all_iff contains_def k')
qed

lemma closed_reachable:
  assumes "closed st" "(k, x) \<in> (edges st)\<^sup>*" "chain_lookup st k \<noteq> None"
  shows "chain_lookup st x \<noteq> None"
  using assms(2,3)
  by (induction rule: rtrancl_induct) (auto dest: closed_edge[OF assms(1)])

lemma closed_not_dangling:
  "closed st \<Longrightarrow> chain_lookup st k \<noteq> None \<Longrightarrow> \<not> dangling_reachable st k"
  unfolding dangling_reachable_def using closed_reachable by blast

lemma dfs_cycle_gray: "colors k = 1 \<Longrightarrow> dfs_cycle st k colors = Inl ValueError"
  by (simp add: dfs_cycle.simps)

lemma dfs_cycle_black: "colors k = 2 \<Longrightarrow> dfs_cycle st k colors = Inr colors"
  by (simp add: dfs_cycle.simps)

lemma black_ok_start: "black_ok st (\<lambda>_. 0)"
  by (simp add: black_ok_def black_def)

lemma has_cycle_False:
  assumes "has_cycle st k = Inr False"
  shows "\<not> cycle_reachable st k \<and> \<not> dangling_reachable st k"
proof -
  from assms obtain c where c: "dfs_cycle st k (\<lambda>_. 0) = Inr c"
    by (auto simp: has_cycle_def split: sum.splits error.splits)
  from dfs_cycle_black_ok(1)[OF c black_ok_start] have ok: "black_ok st c" .
  from dfs_cycle_colors(1)[OF c] have k: "k \<in> black c" by simp
  have bl: "x \<in> black c" if "(k, x) \<in> (edges st)\<^sup>*" for x
    using black_closed[OF ok that k] .
  then show ?thesis
    unfolding cycle_reachable_def dangling_reachable_def
    using ok by (auto simp: black_ok_def)
qed

lemma has_cycle_True:
  assumes "has_cycle st k = Inr True"
  shows "cycle_reachable st k"
proof -
  from assms have "dfs_cycle st k (\<lambda>_. 0) = Inl ValueError"
    by (auto simp: has_cycle_def split: sum.splits error.splits)
  from dfs_cycle_error(1)[OF this] show ?thesis
    by (auto simp: gray_def cycle_reachable_def)
qed

lemma has_cycle_Inl:
  assumes "has_cycle st k = Inl e"
  shows "\<exists>u. e = UnknownDependency u \<and> (k, u) \<in> (edges st)\<^sup>* \<and> chain_lookup st u = None"
proof -
  from assms have "dfs_cycle st k (\<lambda>_. 0) = Inl e" "e \<noteq> ValueError"
    by (auto simp: has_cycle_def split: sum.splits error.splits)
  from dfs_cycle_error(1)[OF this(1)] this(2) show ?thesis
    by (auto simp: gray_def)
qed

lemma has_cycle_Inl_dangling: "has_cycle st k = Inl e \<Longrightarrow> dangling_reachable st k"
  using has_cycle_Inl unfolding dangling_reachable_def by blast

text \<open>
  C3 (amended). Where every key reachable from \<open>k\<close> is registered, the cycle detector
  returns true if and only if the dependency graph reachable from \<open>k\<close> contains a cycle.
  The walk is the three-colouring: meeting a gray key reports the cycle at once, meeting a
  black key returns without looking at its subtree.
\<close>

theorem has_cycle_iff_cycle:
  assumes "\<not> dangling_reachable st k"
  shows "has_cycle st k = Inr (cycle_reachable st k)
       \<and> (colors x = 1 \<longrightarrow> dfs_cycle st x colors = Inl ValueError)
       \<and> (colors x = 2 \<longrightarrow> dfs_cycle st x colors = Inr colors)"
proof -
  have "has_cycle st k = Inr (cycle_reachable st k)"
  proof (cases "has_cycle st k")
    case (Inl e)
    with assms has_cycle_Inl_dangling show ?thesis by blast
  next
    case (Inr b)
    show ?thesis
    proof (cases b)
      case True
      with Inr has_cycle_True show ?thesis by simp
    next
      case False
      with Inr has_cycle_False show ?thesis by simp
    qed
  qed
  then show ?thesis by (simp add: dfs_cycle_gray dfs_cycle_black)
qed

theorem has_cycle_iff_cycle_witness:
  "\<not> dangling_reachable two_cycle 0 \<and> has_cycle two_cycle 0 = Inr True \<and> cycle_reachable two_cycle 0
   \<and> dfs_cycle two_cycle 1 ((\<lambda>_. 0)(0 := 1, 1 := 1)) = Inl ValueError
   \<and> dfs_cycle two_cycle 1 ((\<lambda>_. 0)(1 := 2)) = Inr ((\<lambda>_. 0)(1 := 2))"
proof -
  have c: "closed two_cycle" by (simp add: closed_def two_cycle_def keys_of_def contains_def ex_defs)
  have nd: "\<not> dangling_reachable two_cycle 0"
    by (rule closed_not_dangling[OF c]) (simp add: two_cycle_def)
  have ev: "has_cycle two_cycle 0 = Inr True"
    by (simp add: has_cycle_def dfs_cycle.simps getitem_def two_cycle_def ex_defs)
  from has_cycle_iff_cycle[OF nd, of "(\<lambda>_. 0)(0 := 1, 1 := 1)" 1]
       has_cycle_iff_cycle[OF nd, of "(\<lambda>_. 0)(1 := 2)" 1] nd ev
  show ?thesis by simp
qed

text \<open>
  C3 as stated fails where the walk meets an unregistered key before it closes the cycle:
  the node of key 0 names the unregistered key 1 first and itself second, the graph
  reachable from 0 has the cycle 0 \<rightarrow> 0, and the detector raises
  \<^verbatim>\<open>UnknownDependency(1)\<close> instead of returning true.
\<close>

theorem has_cycle_iff_cycle_counterexample:
  "cycle_reachable [[(0, self_loop_after_gap)]] 0
   \<and> has_cycle [[(0, self_loop_after_gap)]] 0 = Inl (UnknownDependency 1)"
proof -
  have "(0, 0) \<in> edges [[(0, self_loop_after_gap)]]"
    by (simp add: edges_def self_loop_after_gap_def ex_defs)
  then have "cycle_reachable [[(0, self_loop_after_gap)]] 0"
    unfolding cycle_reachable_def by blast
  moreover have "has_cycle [[(0, self_loop_after_gap)]] 0 = Inl (UnknownDependency 1)"
    by (simp add: has_cycle_def dfs_cycle.simps getitem_def self_loop_after_gap_def ex_defs)
  ultimately show ?thesis by simp
qed

lemma setitem_fail_unchanged: "setitem st k v = (Inl e, st') \<Longrightarrow> st' = st"
  by (auto simp: setitem_def Let_def split: sum.splits bool.splits)

text \<open>
  C1 (amended). When the storage with the candidate mapping in front has a cycle reachable
  from the candidate key, \<^verbatim>\<open>__setitem__\<close> fails and leaves the storage as it was. The
  exception is \<^verbatim>\<open>InvalidOperation\<close> (the code has no separate cycle error), or
  \<^verbatim>\<open>UnknownDependency\<close> of an unregistered key the walk reached first; it is
  \<^verbatim>\<open>InvalidOperation\<close> whenever every reachable key is registered.
\<close>

theorem setitem_cycle_rejected:
  assumes "cycle_reachable (new_child [(k, v)] st) k"
  shows "\<exists>e. setitem st k v = (Inl e, st)
           \<and> (e = InvalidOperation CausesCycle
               \<or> (\<exists>u. e = UnknownDependency u \<and> (k, u) \<in> (edges (new_child [(k, v)] st))\<^sup>*
                      \<and> chain_lookup (new_child [(k, v)] st) u = None))
           \<and> (\<not> dangling_reachable (new_child [(k, v)] st) k \<longrightarrow> e = InvalidOperation CausesCycle)"
proof (cases "has_cycle (new_child [(k, v)] st) k")
  case (Inl e)
  from has_cycle_Inl[OF Inl] has_cycle_Inl_dangling[OF Inl] Inl show ?thesis
    by (auto simp: setitem_def)
next
  case (Inr b)
  with assms has_cycle_False have "b = True" by (cases b) auto
  with Inr show ?thesis by (simp add: setitem_def)
qed

theorem setitem_cycle_rejected_witness:
  "cycle_reachable (new_child [(1, node (plain 1) [arg ''x'' 0])] y_then_x) 1
   \<and> setitem y_then_x 1 (node (plain 1) [arg ''x'' 0]) = (Inl (InvalidOperation CausesCycle), y_then_x)"
proof -
  let ?v = "node (plain 1) [arg ''x'' 0]"
  let ?h = "new_child [(1, ?v)] y_then_x"
  have "(1, 0) \<in> edges ?h" "(0, 1) \<in> edges ?h"
    by (simp_all add: edges_def new_child_def y_then_x_def ex_defs)
  then have "(1, 1) \<in> (edges ?h)\<^sup>+" by (meson trancl.simps)
  then have c: "cycle_reachable ?h 1" unfolding cycle_reachable_def by blast
  have ev: "setitem y_then_x 1 ?v = (Inl (InvalidOperation CausesCycle), y_then_x)"
    by (simp add: setitem_def new_child_def has_cycle_def dfs_cycle.simps getitem_def y_then_x_def ex_defs)
  from setitem_cycle_rejected[OF c] c ev show ?thesis by simp
qed

text \<open>
  C1 as stated fails on the empty storage for the candidate of key 0 that names the
  unregistered key 1 first and itself second: the insertion would create the cycle
  0 \<rightarrow> 0, and the registration fails with \<^verbatim>\<open>UnknownDependency(1)\<close>, not with the
  cycle error.
\<close>

theorem setitem_cycle_rejected_counterexample:
  "cycle_reachable (new_child [(0, self_loop_after_gap)] [[]]) 0
   \<and> setitem [[]] 0 self_loop_after_gap = (Inl (UnknownDependency 1), [[]])"
proof -
  have "(0, 0) \<in> edges (new_child [(0, self_loop_after_gap)] [[]])"
    by (simp add: edges_def new_child_def self_loop_after_gap_def ex_defs)
  then have "cycle_reachable (new_child [(0, self_loop_after_gap)] [[]]) 0"
    unfolding cycle_reachable_def by blast
  moreover have "setitem [[]] 0 self_loop_after_gap = (Inl (UnknownDependency 1), [[]])"
    by (simp add: setitem_def new_child_def has_cycle_def dfs_cycle.simps getitem_def
        self_loop_after_gap_def ex_defs)
  ultimately show ?thesis by simp
qed

section \<open>Scoped overriding\<close>

lemma chain_setitem_tail:
  "chain_setitem st k v = Inr st' \<Longrightarrow> st \<noteq> [] \<and> st' \<noteq> [] \<and> drop 1 st' = drop 1 st"
  by (auto simp: chain_setitem_def split: list.splits)

lemma di_setitem_cases:
  assumes "di_setitem callable di k v = (r, di')"
  shows "di' = di \<or> (\<exists>d m. chain_setitem (deps di) k d = Inr m \<and> di' = di\<lparr>deps := m\<rparr>)"
proof (cases "callable k")
  case False
  with assms show ?thesis by (simp add: di_setitem_def)
next
  case True
  define sc where "sc = (case v of IsScope s \<Rightarrow> s | NotScope f \<Rightarrow> default_scope_class f)"
  show ?thesis
  proof (cases "get_factories_for_func di (factory sc)")
    case (Inl e)
    with assms True show ?thesis by (simp add: di_setitem_def sc_def)
  next
    case (Inr inj)
    show ?thesis
    proof (cases "chain_setitem (deps di) k (Dependency sc (dict (kwargs_to_inject [] inj)))")
      case (Inl e)
      with assms True Inr show ?thesis by (simp add: di_setitem_def sc_def)
    next
      case Inr2: (Inr m)
      with assms True Inr have "di' = di\<lparr>deps := m\<rparr>" by (simp add: di_setitem_def sc_def)
      with Inr2 show ?thesis by blast
    qed
  qed
qed

lemma same_tail_refl: "same_tail di di"
  unfolding same_tail_def by (rule exI[of _ "deps di"]) simp

lemma same_tail_trans:
  assumes "same_tail a b" "same_tail b c"
  shows "same_tail a c"
proof -
  from assms(1) obtain m1 where m1: "b = a\<lparr>deps := m1\<rparr>" "drop 1 m1 = drop 1 (deps a)"
    "deps a \<noteq> [] \<longrightarrow> m1 \<noteq> []" unfolding same_tail_def by blast
  from assms(2) obtain m2 where m2: "c = b\<lparr>deps := m2\<rparr>" "drop 1 m2 = drop 1 (deps b)"
    "deps b \<noteq> [] \<longrightarrow> m2 \<noteq> []" unfolding same_tail_def by blast
  from m1 m2 show ?thesis unfolding same_tail_def by (intro exI[of _ m2]) simp
qed

lemma di_setitem_tail:
  assumes "di_setitem callable di k v = (r, di')"
  shows "same_tail di di'"
  using di_setitem_cases[OF assms]
proof
  assume "di' = di"
  then show ?thesis by (simp add: same_tail_refl)
next
  assume "\<exists>d m. chain_setitem (deps di) k d = Inr m \<and> di' = di\<lparr>deps := m\<rparr>"
  then obtain d m where m: "chain_setitem (deps di) k d = Inr m" "di' = di\<lparr>deps := m\<rparr>" by blast
  from chain_setitem_tail[OF m(1)] m(2) show ?thesis
    unfolding same_tail_def by (intro exI[of _ m]) simp
qed

lemma register_block_tail:
  "register_block callable regs di = (r, di') \<Longrightarrow> same_tail di di'"
proof (induction regs arbitrary: di)
  case Nil
  then show ?case by (simp add: same_tail_refl)
next
  case (Cons p regs)
  obtain k v where p: "p = (k, v)" by (cases p)
  obtain r1 di1 where s: "di_setitem callable di k v = (r1, di1)" by (cases "di_setitem callable di k v")
  note t1 = di_setitem_tail[OF s]
  show ?case
  proof (cases r1)
    case (Inl e)
    with Cons.prems p s have "di' = di1" by simp
    with t1 show ?thesis by simp
  next
    case (Inr u)
    with Cons.prems p s have "register_block callable regs di1 = (r, di')" by simp
    from same_tail_trans[OF t1 Cons.IH[OF this]] show ?thesis .
  qed
qed

lemma chain_lookup_parents_child:
  assumes "m \<noteq> []" "drop 1 m = st"
  shows "chain_lookup (parents m) = chain_lookup st" "st \<noteq> [] \<Longrightarrow> parents m = st"
  using assms by (auto simp: parents_def split: list.splits)

lemma observations_by_lookup:
  assumes "chain_lookup (deps di') = chain_lookup (deps di)"
  shows "di_contains di' k = di_contains di k" "get_factory di' k = get_factory di k"
    "di_getitem di' k w = di_getitem di k w" "aget di' k w = aget di k w"
  using assms by (simp_all add: di_contains_def contains_def get_factory_def di_getitem_def aget_def)

text \<open>
  C9. Entering a scope, registering inside it and leaving it gives a container that
  answers \<open>contains\<close>, the lookup and both \<open>get\<close>s as before on every key (and is the
  same container when it had a layer, as every container has); inside the scope the
  ancestor layers are the layers from before, untouched.
\<close>

theorem override_restores:
  assumes "override di (register_block callable regs) = (r, di')"
  shows "(\<forall>k w. di_contains di' k = di_contains di k \<and> get_factory di' k = get_factory di k
            \<and> di_getitem di' k w = di_getitem di k w \<and> aget di' k w = aget di k w)
       \<and> (deps di \<noteq> [] \<longrightarrow> di' = di)
       \<and> drop 1 (deps (snd (register_block callable regs (di\<lparr>deps := new_child [] (deps di)\<rparr>)))) = deps di"
proof -
  let ?in = "di\<lparr>deps := new_child [] (deps di)\<rparr>"
  obtain r1 di1 where b: "register_block callable regs ?in = (r1, di1)"
    by (cases "register_block callable regs ?in")
  from register_block_tail[OF b] obtain m where m: "di1 = ?in\<lparr>deps := m\<rparr>"
    "drop 1 m = drop 1 (deps ?in)" "m \<noteq> []" unfolding same_tail_def by (auto simp: new_child_def)
  from m(2) have tl: "drop 1 m = deps di" by (simp add: new_child_def)
  from assms b have di': "di' = di1\<lparr>deps := parents (deps di1)\<rparr>" by (simp add: override_def)
  with m(1) have d: "deps di' = parents m" by simp
  from chain_lookup_parents_child(1)[OF m(3) tl] d
  have "chain_lookup (deps di') = chain_lookup (deps di)" by simp
  note obs = observations_by_lookup[OF this]
  have "di' = di" if "deps di \<noteq> []"
    using chain_lookup_parents_child(2)[OF m(3) tl that] di' m(1) by simp
  moreover have "drop 1 (deps (snd (register_block callable regs ?in))) = deps di"
    using b m(1) tl by simp
  ultimately show ?thesis using obs by blast
qed

theorem override_restores_witness:
  "override one_registered (register_block callable_all [(1, NotScope wants_zero), (0, NotScope wants_zero)])
     = (Inr (), one_registered)
   \<and> deps (snd (register_block callable_all [(1, NotScope wants_zero), (0, NotScope wants_zero)]
        (one_registered\<lparr>deps := new_child [] (deps one_registered)\<rparr>)))
     = [[(1, Dependency (default_scope_class wants_zero) [(''a'', Dependency (plain 0) [])]),
         (0, Dependency (default_scope_class wants_zero) [(''a'', Dependency (plain 0) [])])],
        [(0, Dependency (plain 0) [])]]
   \<and> di_contains one_registered 1 = False"
proof -
  have ev: "override one_registered (register_block callable_all [(1, NotScope wants_zero), (0, NotScope wants_zero)])
     = (Inr (), one_registered)"
    by (simp add: override_def di_setitem_def callable_all_def one_registered_def wants_zero_def
        get_factories_for_func_def get_factory_def new_child_def parents_def chain_setitem_def
        kwargs_to_inject_def dict_def default_scope_class_def)
  have inner: "deps (snd (register_block callable_all [(1, NotScope wants_zero), (0, NotScope wants_zero)]
        (one_registered\<lparr>deps := new_child [] (deps one_registered)\<rparr>)))
     = [[(1, Dependency (default_scope_class wants_zero) [(''a'', Dependency (plain 0) [])]),
         (0, Dependency (default_scope_class wants_zero) [(''a'', Dependency (plain 0) [])])],
        [(0, Dependency (plain 0) [])]]"
    by (simp add: di_setitem_def callable_all_def one_registered_def wants_zero_def
        get_factories_for_func_def get_factory_def new_child_def chain_setitem_def
        kwargs_to_inject_def dict_def default_scope_class_def)
  from override_restores[OF ev] ev inner show ?thesis
    by (simp add: di_contains_def contains_def one_registered_def)
qed

section \<open>Synchronous access to asynchronous dependencies\<close>

lemma di_is_async_iff: "di_is_async d \<longleftrightarrow> (\<exists>sc \<in> scopes_of d. is_async_scope sc)"
proof (induction d)
  case (Dependency sc kws)
  have "list_ex (\<lambda>p. di_is_async (snd p)) kws \<longleftrightarrow> (\<exists>p \<in> set kws. \<exists>s \<in> scopes_of (snd p). is_async_scope s)"
    unfolding list_ex_iff
  proof (intro bex_cong refl)
    fix p assume "p \<in> set kws"
    moreover have "snd p \<in> Basic_BNFs.snds p" by (cases p) simp
    ultimately show "di_is_async (snd p) = (\<exists>s \<in> scopes_of (snd p). is_async_scope s)"
      by (rule Dependency.IH)
  qed
  then show ?case by auto
qed

text \<open>
  C4. For a registered key whose dependency closure contains an asynchronous factory,
  \<open>get\<close> fails with \<^verbatim>\<open>InvalidOperation\<close> and leaves the world as it was (no factory
  ran, nothing was cached), and \<open>aget\<close> on the same key returns the value of
  \<open>acall\<close>.
\<close>

theorem get_rejects_async:
  assumes "get_factory di k = Inr d" and "\<exists>sc \<in> scopes_of d. is_async_scope sc"
  shows "di_getitem di k w = (Inl (InvalidOperation UseAget), w)
       \<and> aget di k w = (Inr (fst (di_acall d w)), snd (di_acall d w))"
proof -
  from assms(2) have "di_is_async d" by (simp add: di_is_async_iff)
  with assms(1) show ?thesis
    by (simp add: di_getitem_def aget_def split: prod.splits)
qed

theorem get_rejects_async_witness:
  "get_factory async_below 1 = Inr (Dependency (plain 1) [(''a'', Dependency (coro 0) [])])
   \<and> coro 0 \<in> scopes_of (Dependency (plain 1) [(''a'', Dependency (coro 0) [])])
   \<and> is_async_scope (coro 0)
   \<and> di_getitem async_below 1 start = (Inl (InvalidOperation UseAget), start)
   \<and> aget async_below 1 start
       = (Inr (Made 1 1 [(''a'', Made 0 0 [])]), \<lparr>cached = [], calls = [0, 1]\<rparr>)"
proof -
  let ?d = "Dependency (plain 1) [(''a'', Dependency (coro 0) [])]"
  have g: "get_factory async_below 1 = Inr ?d"
    by (simp add: get_factory_def async_below_def)
  have m: "coro 0 \<in> scopes_of ?d" by simp
  have a: "is_async_scope (coro 0)" by (simp add: is_async_scope_def coro_def async_func_def)
  from m a have ex: "\<exists>sc \<in> scopes_of ?d. is_async_scope sc" by blast
  have ev: "di_acall ?d start = (Made 1 1 [(''a'', Made 0 0 [])], \<lparr>cached = [], calls = [0, 1]\<rparr>)"
    by (simp add: eng_defs)
  from get_rejects_async[OF g ex, of start] g m a ev show ?thesis by simp
qed

section \<open>Phase 1: when a node is collapsed\<close>

lemma append_under_resolving_sel [simp]:
  "pscope (append_under_resolving dep p) = pscope dep"
  "unresolved (append_under_resolving dep p) = unresolved dep"
  "resolved (append_under_resolving dep p) = resolved dep"
  "under_resolving (append_under_resolving dep p) = under_resolving dep @ [p]"
  by (simp_all add: append_under_resolving_def)

lemma set_resolved_sel [simp]:
  "pscope (set_resolved dep n v) = pscope dep"
  "unresolved (set_resolved dep n v) = unresolved dep"
  "resolved (set_resolved dep n v) = AList.update n v (resolved dep)"
  "under_resolving (set_resolved dep n v) = under_resolving dep"
  by (simp_all add: set_resolved_def)

lemma clear_unresolved_sel [simp]:
  "pscope (clear_unresolved dep) = pscope dep"
  "unresolved (clear_unresolved dep) = []"
  "resolved (clear_unresolved dep) = resolved dep"
  "under_resolving (clear_unresolved dep) = under_resolving dep"
  by (simp_all add: clear_unresolved_def)

lemma partially_resolved_sel [simp]:
  "pscope (partially_resolved d) = scope d"
  "unresolved (partially_resolved d) = subdeps d"
  "resolved (partially_resolved d) = []"
  "under_resolving (partially_resolved d) = []"
  by (simp_all add: partially_resolved_def)

lemma sync_kwargs_frame:
  "sync_kwargs n st kws dep w = Some (Inr dep', w') \<Longrightarrow>
     pscope dep' = pscope dep \<and> unresolved dep' = unresolved dep"
proof (induction kws arbitrary: dep w)
  case Nil
  then show ?case by simp
next
  case (Cons kw rest)
  from Cons.prems obtain dep1 w1 where "sync_kwargs n st rest dep1 w1 = Some (Inr dep', w')"
    and "pscope dep1 = pscope dep" "unresolved dep1 = unresolved dep"
    by (auto split: sum.splits option.splits prod.splits outcome.splits)
  with Cons.IH[of dep1 w1] show ?case by simp
qed

lemma part_call_ready:
  "\<not> is_async dep \<Longrightarrow> is_resolved dep \<Longrightarrow>
     part_call dep w = (Inr (fst (scope_call (pscope dep) (resolved dep) w)),
                        snd (scope_call (pscope dep) (resolved dep) w))"
  by (simp add: part_call_def split: prod.splits)

text \<open>
  C2. In the synchronous descent a visited node is turned into a value, by calling it
  through its scope on the kwargs the loop resolved, if and only if it is not the top
  call, its own factory is synchronous and the loop over its kwargs left no pending
  entry; that call is the only thing done after the loop. Otherwise, in particular for
  an asynchronous factory and for the top call, the node is returned as it stands after
  the loop and the world is the loop's.
\<close>

theorem sync_dfs_collapse:
  assumes "sync_dfs (Suc n) st dep top_call w = Some (Inr out, w')"
  shows "\<exists>dep1 w1. sync_kwargs n st (unresolved dep) dep w = Some (Inr dep1, w1)
           \<and> ((\<exists>v. out = Value v) \<longleftrightarrow> \<not> top_call \<and> \<not> is_async dep \<and> under_resolving dep1 = [])
           \<and> (\<not> top_call \<and> \<not> is_async dep \<and> under_resolving dep1 = [] \<longrightarrow>
                 out = Value (fst (scope_call (pscope dep) (resolved dep1) w1))
                 \<and> w' = snd (scope_call (pscope dep) (resolved dep1) w1))
           \<and> (top_call \<or> is_async dep \<or> under_resolving dep1 \<noteq> [] \<longrightarrow>
                 out = Partial (clear_unresolved dep1) \<and> w' = w1)"
proof -
  from assms obtain dep1 w1 where loop: "sync_kwargs n st (unresolved dep) dep w = Some (Inr dep1, w1)"
    by (auto split: option.splits sum.splits prod.splits)
  from sync_kwargs_frame[OF loop] have sc: "pscope dep1 = pscope dep" by simp
  let ?d = "clear_unresolved dep1"
  have a: "is_async ?d = is_async dep" by (simp add: is_async_def sc)
  have r: "is_resolved ?d \<longleftrightarrow> under_resolving dep1 = []" by (simp add: is_resolved_def)
  show ?thesis
  proof (cases "top_call \<or> is_async dep \<or> under_resolving dep1 \<noteq> []")
    case True
    with assms loop a r have "out = Partial ?d \<and> w' = w1" by (auto simp: Let_def)
    with True loop show ?thesis by auto
  next
    case False
    then have ready: "\<not> is_async ?d" "is_resolved ?d" using a r by auto
    from False assms loop a r part_call_ready[OF ready, of w1]
    have "out = Value (fst (scope_call (pscope dep) (resolved dep1) w1))
          \<and> w' = snd (scope_call (pscope dep) (resolved dep1) w1)"
      by (auto simp: Let_def sc)
    with False loop show ?thesis by auto
  qed
qed

theorem sync_dfs_collapse_witness:
  "sync_dfs 2 chain_abcd (partially_resolved (node (plain 1) [arg ''a'' 0])) False start
     = Some (Inr (Value (Made 1 1 [(''a'', Made 0 0 [])])), \<lparr>cached = [], calls = [0, 1]\<rparr>)
   \<and> sync_kwargs 1 chain_abcd [arg ''a'' 0] (partially_resolved (node (plain 1) [arg ''a'' 0])) start
     = Some (Inr (PartResolvedDependency (plain 1) [(''a'', Made 0 0 [])] [] [arg ''a'' 0]),
             \<lparr>cached = [], calls = [0]\<rparr>)
   \<and> sync_dfs 2 chain_abcd (partially_resolved (node (plain 1) [arg ''a'' 0])) True start
     = Some (Inr (Partial (PartResolvedDependency (plain 1) [(''a'', Made 0 0 [])] [] [])),
             \<lparr>cached = [], calls = [0]\<rparr>)
   \<and> sync_dfs 1 chain_abcd (partially_resolved (node (coro 2) [])) False start
     = Some (Inr (Partial (PartResolvedDependency (coro 2) [] [] [])), start)"
proof -
  let ?b = "partially_resolved (node (plain 1) [arg ''a'' 0])"
  have e1: "sync_dfs (Suc 1) chain_abcd ?b False start
     = Some (Inr (Value (Made 1 1 [(''a'', Made 0 0 [])])), \<lparr>cached = [], calls = [0, 1]\<rparr>)"
    by (simp add: eng_defs chain_abcd_def)
  have e2: "sync_dfs (Suc 1) chain_abcd ?b True start
     = Some (Inr (Partial (PartResolvedDependency (plain 1) [(''a'', Made 0 0 [])] [] [])),
             \<lparr>cached = [], calls = [0]\<rparr>)"
    by (simp add: eng_defs chain_abcd_def)
  have e3: "sync_dfs (Suc 0) chain_abcd (partially_resolved (node (coro 2) [])) False start
     = Some (Inr (Partial (PartResolvedDependency (coro 2) [] [] [])), start)"
    by (simp add: eng_defs chain_abcd_def)
  have e4: "sync_kwargs 1 chain_abcd [arg ''a'' 0] ?b start
     = Some (Inr (PartResolvedDependency (plain 1) [(''a'', Made 0 0 [])] [] [arg ''a'' 0]),
             \<lparr>cached = [], calls = [0]\<rparr>)"
    by (simp add: eng_defs chain_abcd_def)
  from sync_dfs_collapse[OF e1] sync_dfs_collapse[OF e2] sync_dfs_collapse[OF e3] e1 e2 e3 e4
  show ?thesis by (simp add: numeral_2_eq_2)
qed

section \<open>Phase 1 on acyclic storages\<close>

text \<open>
  The shapes a finished step of the walk can have, then four facts: more fuel does not
  change a result; an exception of the walk is \<^verbatim>\<open>UnknownDependency\<close> of an
  unregistered key the walk reached; a walk that succeeds met registered keys only; and
  on a storage with no cycle below the key the walk ends, by well-founded induction along
  the edges.
\<close>

lemma sync_dfs_Suc_cases:
  assumes "sync_dfs (Suc n) st dep top_call w = Some r"
  obtains (failed) e w1 where "sync_kwargs n st (unresolved dep) dep w = Some (Inl e, w1)"
      "r = (Inl e, w1)"
  | (partial) dep1 w1 where "sync_kwargs n st (unresolved dep) dep w = Some (Inr dep1, w1)"
      "top_call \<or> is_async dep \<or> under_resolving dep1 \<noteq> []"
      "r = (Inr (Partial (clear_unresolved dep1)), w1)"
  | (collapsed) dep1 w1 where "sync_kwargs n st (unresolved dep) dep w = Some (Inr dep1, w1)"
      "\<not> top_call" "\<not> is_async dep" "under_resolving dep1 = []"
      "r = (Inr (Value (fst (scope_call (pscope dep) (resolved dep1) w1))),
            snd (scope_call (pscope dep) (resolved dep1) w1))"
proof (cases "sync_kwargs n st (unresolved dep) dep w")
  case None
  with assms show ?thesis by simp
next
  case (Some x)
  obtain y w1 where x: "x = (y, w1)" by (cases x)
  show ?thesis
  proof (cases y)
    case (Inl e)
    with assms Some x show ?thesis by (intro failed[of e w1]) auto
  next
    case (Inr dep1)
    with Some x have loop: "sync_kwargs n st (unresolved dep) dep w = Some (Inr dep1, w1)" by simp
    from sync_kwargs_frame[OF loop] have sc: "pscope dep1 = pscope dep" by simp
    let ?d = "clear_unresolved dep1"
    have a: "is_async ?d = is_async dep" by (simp add: is_async_def sc)
    have rs: "is_resolved ?d \<longleftrightarrow> under_resolving dep1 = []" by (simp add: is_resolved_def)
    show ?thesis
    proof (cases "top_call \<or> is_async dep \<or> under_resolving dep1 \<noteq> []")
      case True
      with assms loop a rs have "r = (Inr (Partial ?d), w1)" by (auto simp: Let_def)
      with loop True show ?thesis by (rule partial)
    next
      case False
      then have ready: "\<not> is_async ?d" "is_resolved ?d" using a rs by auto
      from False assms loop a rs part_call_ready[OF ready, of w1]
      have "r = (Inr (Value (fst (scope_call (pscope dep) (resolved dep1) w1))),
                 snd (scope_call (pscope dep) (resolved dep1) w1))"
        by (auto simp: Let_def sc)
      with loop False show ?thesis by (intro collapsed[of dep1 w1]) auto
    qed
  qed
qed

lemma sync_kwargs_Cons_cases:
  assumes "sync_kwargs n st (kw # rest) dep w = Some r"
  obtains (unknown) "chain_lookup st (func kw) = None" "r = (Inl (UnknownDependency (func kw)), w)"
  | (failed) d e w1 where "chain_lookup st (func kw) = Some d"
      "sync_dfs n st (partially_resolved d) False w = Some (Inl e, w1)" "r = (Inl e, w1)"
  | (pending) d p w1 where "chain_lookup st (func kw) = Some d"
      "sync_dfs n st (partially_resolved d) False w = Some (Inr (Partial p), w1)"
      "sync_kwargs n st rest (append_under_resolving dep (KWargCopy (name kw) p (attrs kw))) w1 = Some r"
  | (valued) d v w1 where "chain_lookup st (func kw) = Some d"
      "sync_dfs n st (partially_resolved d) False w = Some (Inr (Value v), w1)"
      "sync_kwargs n st rest (set_resolved dep (name kw) (getattrs (attrs kw) v)) w1 = Some r"
proof (cases "chain_lookup st (func kw)")
  case None
  with assms have "r = (Inl (UnknownDependency (func kw)), w)" by (simp add: getitem_def)
  with None show ?thesis by (rule unknown)
next
  case (Some d)
  then have g: "getitem st (func kw) = Inr d" by (simp add: getitem_def)
  show ?thesis
  proof (cases "sync_dfs n st (partially_resolved d) False w")
    case None
    with assms g show ?thesis by simp
  next
    case sub: (Some x)
    obtain y w1 where x: "x = (y, w1)" by (cases x)
    show ?thesis
    proof (cases y)
      case (Inl e)
      with assms g sub x have "r = (Inl e, w1)" by simp
      with Some sub x Inl show ?thesis by (intro failed) auto
    next
      case (Inr out)
      show ?thesis
      proof (cases out)
        case (Value v)
        with assms g sub x Inr show ?thesis by (intro valued[OF Some]) auto
      next
        case (Partial p)
        with assms g sub x Inr show ?thesis by (intro pending[OF Some]) auto
      qed
    qed
  qed
qed

lemma fuel_mono:
  "sync_dfs n st dep top_call w = Some r \<Longrightarrow> sync_dfs (n + m) st dep top_call w = Some r"
  "sync_kwargs n st kws dep w = Some r' \<Longrightarrow> sync_kwargs (n + m) st kws dep w = Some r'"
proof (induction n st dep top_call w and n st kws dep w arbitrary: r and r'
       rule: sync_dfs_sync_kwargs.induct)
  case (1 st dep top_call w)
  then show ?case by simp
next
  case (2 n st dep top_call w)
  from 2(2) obtain r1 where loop: "sync_kwargs n st (unresolved dep) dep w = Some r1"
    by (cases "sync_kwargs n st (unresolved dep) dep w") auto
  from 2(1)[OF loop] have "sync_kwargs (n + m) st (unresolved dep) dep w = Some r1" .
  with loop have "sync_dfs (Suc n + m) st dep top_call w = sync_dfs (Suc n) st dep top_call w"
    by simp
  with 2(2) show ?case by simp
next
  case (3 n st dep w)
  then show ?case by simp
next
  case (4 n st kw rest dep w)
  from 4(4) show ?case
  proof (cases rule: sync_kwargs_Cons_cases)
    case unknown
    then show ?thesis by (simp add: getitem_def)
  next
    case (failed d e w1)
    then have g: "getitem st (func kw) = Inr d" by (simp add: getitem_def)
    from 4(1)[OF g failed(2)] g failed(3) show ?thesis by simp
  next
    case (pending d p w1)
    then have g: "getitem st (func kw) = Inr d" by (simp add: getitem_def)
    from 4(1)[OF g pending(2)] 4(3)[OF g pending(2) refl refl refl pending(3)] g
    show ?thesis by simp
  next
    case (valued d v w1)
    then have g: "getitem st (func kw) = Inr d" by (simp add: getitem_def)
    from 4(1)[OF g valued(2)] 4(2)[OF g valued(2) refl refl refl valued(3)] g
    show ?thesis by simp
  qed
qed

lemma sync_errors:
  "sync_dfs n st dep top_call w = Some (Inl e, w') \<Longrightarrow>
     \<exists>kw \<in> set (unresolved dep). \<exists>u. e = UnknownDependency u \<and> (func kw, u) \<in> (edges st)\<^sup>*
        \<and> chain_lookup st u = None"
  "sync_kwargs n st kws dep w = Some (Inl e, w') \<Longrightarrow>
     \<exists>kw \<in> set kws. \<exists>u. e = UnknownDependency u \<and> (func kw, u) \<in> (edges st)\<^sup>*
        \<and> chain_lookup st u = None"
proof (induction n st dep top_call w and n st kws dep w arbitrary: e w' and e w'
       rule: sync_dfs_sync_kwargs.induct)
  case (1 st dep top_call w)
  then show ?case by simp
next
  case (2 n st dep top_call w)
  from 2(2) show ?case
  proof (cases rule: sync_dfs_Suc_cases)
    case (failed e1 w1)
    with 2(1)[of e1 w1] show ?thesis by simp
  qed simp_all
next
  case (3 n st dep w)
  then show ?case by simp
next
  case (4 n st kw rest dep w)
  from 4(4) show ?case
  proof (cases rule: sync_kwargs_Cons_cases)
    case unknown
    then show ?thesis by auto
  next
    case (failed d e1 w1)
    then have g: "getitem st (func kw) = Inr d" by (simp add: getitem_def)
    from failed(3) have "e1 = e" by simp
    with 4(1)[OF g] failed(2) obtain kw' u where kw': "kw' \<in> set (subdeps d)"
      and u: "e = UnknownDependency u" "(func kw', u) \<in> (edges st)\<^sup>*" "chain_lookup st u = None"
      by fastforce
    from edgesI[OF failed(1) kw'] u(2) have "(func kw, u) \<in> (edges st)\<^sup>*"
      by (rule converse_rtrancl_into_rtrancl)
    with u show ?thesis by auto
  next
    case (pending d p w1)
    then have g: "getitem st (func kw) = Inr d" by (simp add: getitem_def)
    from 4(3)[OF g pending(2) refl refl refl pending(3)] show ?thesis by auto
  next
    case (valued d v w1)
    then have g: "getitem st (func kw) = Inr d" by (simp add: getitem_def)
    from 4(2)[OF g valued(2) refl refl refl valued(3)] show ?thesis by auto
  qed
qed

lemma dangling_unfold:
  "dangling_reachable st k \<longleftrightarrow>
     chain_lookup st k = None \<or>
     (\<exists>d kw. chain_lookup st k = Some d \<and> kw \<in> set (subdeps d) \<and> dangling_reachable st (func kw))"
proof
  assume "dangling_reachable st k"
  then obtain x where x: "(k, x) \<in> (edges st)\<^sup>*" "chain_lookup st x = None"
    unfolding dangling_reachable_def by blast
  from x(1) show "chain_lookup st k = None \<or>
     (\<exists>d kw. chain_lookup st k = Some d \<and> kw \<in> set (subdeps d) \<and> dangling_reachable st (func kw))"
  proof (cases rule: converse_rtranclE)
    case base
    with x(2) show ?thesis by simp
  next
    case (step y)
    from step(1) obtain d kw where "chain_lookup st k = Some d" "kw \<in> set (subdeps d)" "y = func kw"
      by (rule edgesE)
    with step(2) x(2) show ?thesis unfolding dangling_reachable_def by blast
  qed
next
  assume "chain_lookup st k = None \<or>
     (\<exists>d kw. chain_lookup st k = Some d \<and> kw \<in> set (subdeps d) \<and> dangling_reachable st (func kw))"
  then show "dangling_reachable st k"
  proof
    assume "chain_lookup st k = None"
    then show ?thesis unfolding dangling_reachable_def by blast
  next
    assume "\<exists>d kw. chain_lookup st k = Some d \<and> kw \<in> set (subdeps d) \<and> dangling_reachable st (func kw)"
    then obtain d kw x where "chain_lookup st k = Some d" "kw \<in> set (subdeps d)"
      "(func kw, x) \<in> (edges st)\<^sup>*" "chain_lookup st x = None"
      unfolding dangling_reachable_def by blast
    with edgesI[of st k d kw] have "(k, x) \<in> (edges st)\<^sup>*" "chain_lookup st x = None"
      by (auto intro: converse_rtrancl_into_rtrancl)
    then show ?thesis unfolding dangling_reachable_def by blast
  qed
qed

lemma sync_success_closed:
  "sync_dfs n st dep top_call w = Some (Inr out, w') \<Longrightarrow>
     \<forall>kw \<in> set (unresolved dep). \<not> dangling_reachable st (func kw)"
  "sync_kwargs n st kws dep w = Some (Inr dep', w') \<Longrightarrow>
     \<forall>kw \<in> set kws. \<not> dangling_reachable st (func kw)"
proof (induction n st dep top_call w and n st kws dep w arbitrary: out w' and dep' w'
       rule: sync_dfs_sync_kwargs.induct)
  case (1 st dep top_call w)
  then show ?case by simp
next
  case (2 n st dep top_call w)
  from 2(2) show ?case
  proof (cases rule: sync_dfs_Suc_cases)
    case (partial dep1 w1)
    with 2(1) show ?thesis by blast
  next
    case (collapsed dep1 w1)
    with 2(1) show ?thesis by blast
  qed simp
next
  case (3 n st dep w)
  then show ?case by simp
next
  case (4 n st kw rest dep w)
  have here: "\<not> dangling_reachable st (func kw)"
    if d: "chain_lookup st (func kw) = Some d"
      and sub: "sync_dfs n st (partially_resolved d) False w = Some (Inr out, w1)" for d out w1
  proof -
    from d have g: "getitem st (func kw) = Inr d" by (simp add: getitem_def)
    from 4(1)[OF g sub] have "\<forall>kw' \<in> set (subdeps d). \<not> dangling_reachable st (func kw')" by simp
    with d show ?thesis by (subst dangling_unfold) auto
  qed
  from 4(4) show ?case
  proof (cases rule: sync_kwargs_Cons_cases)
    case (pending d p w1)
    then have g: "getitem st (func kw) = Inr d" by (simp add: getitem_def)
    from 4(3)[OF g pending(2) refl refl refl pending(3)] here[OF pending(1,2)]
    show ?thesis by simp
  next
    case (valued d v w1)
    then have g: "getitem st (func kw) = Inr d" by (simp add: getitem_def)
    from 4(2)[OF g valued(2) refl refl refl valued(3)] here[OF valued(1,2)]
    show ?thesis by simp
  qed simp_all
qed

lemma finite_edges: "finite (edges st)"
proof -
  let ?targets = "\<Union>k \<in> set (keys_of st). case chain_lookup st k of None \<Rightarrow> {}
                     | Some d \<Rightarrow> func ` set (subdeps d)"
  have "edges st \<subseteq> set (keys_of st) \<times> ?targets"
  proof
    fix e assume "e \<in> edges st"
    then obtain k k' where e: "e = (k, k')" "(k, k') \<in> edges st" by (cases e) auto
    from e(2) obtain d kw where d: "chain_lookup st k = Some d" "kw \<in> set (subdeps d)" "k' = func kw"
      by (rule edgesE)
    from d(1) have "k \<in> set (keys_of st)" by (rule chain_lookup_keys_of)
    moreover from this d have "k' \<in> ?targets" by force
    ultimately show "e \<in> set (keys_of st) \<times> ?targets" using e(1) by simp
  qed
  moreover have "finite (set (keys_of st) \<times> ?targets)"
    by (intro finite_cartesian_product finite_UN_I) (auto split: option.splits)
  ultimately show ?thesis by (rule finite_subset)
qed

lemma sync_dfs_Suc_not_None:
  "sync_kwargs n st (unresolved dep) dep w \<noteq> None \<Longrightarrow> sync_dfs (Suc n) st dep top_call w \<noteq> None"
  by (auto simp: Let_def split: option.splits sum.splits prod.splits)

lemma walk_ends_Nil: "walk_ends st []"
  by (simp add: walk_ends_def)

lemma walk_ends_Cons:
  assumes sub: "\<And>d. chain_lookup st (func kw) = Some d \<Longrightarrow> walk_ends st (subdeps d)"
    and rest: "walk_ends st rest"
  shows "walk_ends st (kw # rest)"
proof -
  from rest obtain N2 where N2: "\<And>n dep w. N2 \<le> n \<Longrightarrow> sync_kwargs n st rest dep w \<noteq> None"
    unfolding walk_ends_def by blast
  show ?thesis
  proof (cases "chain_lookup st (func kw)")
    case None
    then show ?thesis by (simp add: walk_ends_def getitem_def)
  next
    case (Some d)
    from sub[OF Some] obtain N1 where
      N1: "\<And>n dep w. N1 \<le> n \<Longrightarrow> sync_kwargs n st (subdeps d) dep w \<noteq> None"
      unfolding walk_ends_def by blast
    have "sync_kwargs n st (kw # rest) dep w \<noteq> None" if n: "max (Suc N1) N2 \<le> n" for n dep w
    proof -
      from n obtain n' where n': "n = Suc n'" "N1 \<le> n'" by (cases n) auto
      from N1[OF n'(2), of "partially_resolved d" w]
      have "sync_dfs n st (partially_resolved d) False w \<noteq> None"
        unfolding n'(1) by (intro sync_dfs_Suc_not_None) simp
      then obtain y w1 where s: "sync_dfs n st (partially_resolved d) False w = Some (y, w1)"
        by (cases "sync_dfs n st (partially_resolved d) False w") auto
      from n have "N2 \<le> n" by simp
      note r = N2[OF this]
      from Some have g: "getitem st (func kw) = Inr d" by (simp add: getitem_def)
      show ?thesis
      proof (cases y)
        case (Inl e)
        with g s show ?thesis by simp
      next
        case (Inr out)
        with g s r show ?thesis by (cases out) simp_all
      qed
    qed
    then show ?thesis unfolding walk_ends_def by blast
  qed
qed

lemma acyclic_walk_ends:
  assumes acyc: "\<not> cycle_reachable st k0"
  shows "(k0, x) \<in> (edges st)\<^sup>* \<Longrightarrow> chain_lookup st x = Some d \<Longrightarrow> walk_ends st (subdeps d)"
proof -
  let ?r = "{(x, y). (k0, x) \<in> (edges st)\<^sup>* \<and> (x, y) \<in> edges st}"
  have sub: "?r \<subseteq> edges st" by blast
  then have fin: "finite ?r" using finite_edges by (rule finite_subset)
  have "acyclic ?r"
  proof (unfold acyclic_def, intro allI notI)
    fix x assume cyc: "(x, x) \<in> ?r\<^sup>+"
    then obtain z where "(x, z) \<in> ?r" by (meson tranclD)
    then have "(k0, x) \<in> (edges st)\<^sup>*" by simp
    moreover from cyc sub have "(x, x) \<in> (edges st)\<^sup>+" by (meson trancl_mono)
    ultimately show False using acyc unfolding cycle_reachable_def by blast
  qed
  with fin have wf: "wf (?r\<inverse>)" by (rule finite_acyclic_wf_converse)
  have "(k0, x) \<in> (edges st)\<^sup>* \<longrightarrow> (\<forall>d. chain_lookup st x = Some d \<longrightarrow> walk_ends st (subdeps d))"
    using wf
  proof (induction x rule: wf_induct_rule)
    case (less x)
    show ?case
    proof (intro impI allI)
      fix d assume reach: "(k0, x) \<in> (edges st)\<^sup>*" and d: "chain_lookup st x = Some d"
      have "walk_ends st kws" if "set kws \<subseteq> set (subdeps d)" for kws
        using that
      proof (induction kws)
        case Nil
        show ?case by (rule walk_ends_Nil)
      next
        case (Cons kw rest)
        then have kw: "kw \<in> set (subdeps d)" and rest: "walk_ends st rest" by auto
        from edgesI[OF d kw] have e: "(x, func kw) \<in> edges st" .
        with reach have "(func kw, x) \<in> ?r\<inverse>" "(k0, func kw) \<in> (edges st)\<^sup>*" by auto
        with less have "\<And>d'. chain_lookup st (func kw) = Some d' \<Longrightarrow> walk_ends st (subdeps d')"
          by blast
        then show ?case using rest by (rule walk_ends_Cons)
      qed
      then show "walk_ends st (subdeps d)" by simp
    qed
  qed
  then show "(k0, x) \<in> (edges st)\<^sup>* \<Longrightarrow> chain_lookup st x = Some d \<Longrightarrow> walk_ends st (subdeps d)"
    by blast
qed

lemma acyclic_resolve_sync_ends:
  assumes "\<not> cycle_reachable st k"
  shows "\<exists>N. \<forall>n \<ge> N. \<forall>w. resolve_sync n st k w \<noteq> None"
proof (cases "chain_lookup st k")
  case None
  then show ?thesis by (simp add: resolve_sync_def getitem_def)
next
  case (Some d)
  from acyclic_walk_ends[OF assms _ Some] obtain N where
    N: "\<And>n dep w. N \<le> n \<Longrightarrow> sync_kwargs n st (subdeps d) dep w \<noteq> None"
    unfolding walk_ends_def by blast
  have "resolve_sync n st k w \<noteq> None" if "Suc N \<le> n" for n w
  proof -
    from that obtain n' where n': "n = Suc n'" "N \<le> n'" by (cases n) auto
    from N[OF n'(2), of "partially_resolved d" w] Some show ?thesis
      unfolding resolve_sync_def n'(1) getitem_def
      by (simp del: sync_dfs.simps add: sync_dfs_Suc_not_None)
  qed
  then show ?thesis by blast
qed




section \<open>Resolution returns on acyclic, closed storages\<close>

lemma chain_lookup_None_iff: "chain_lookup st k = None \<longleftrightarrow> k \<notin> set (keys_of st)"
proof (induction st)
  case Nil
  show ?case by (simp add: keys_of_def)
next
  case (Cons m ms)
  have "map_of m k = None \<longleftrightarrow> k \<notin> fst ` set m" by (rule map_of_eq_None_iff)
  with Cons show ?case by (auto simp: keys_of_def split: option.splits)
qed

lemma resolve_sync_fuel:
  "resolve_sync n st k w = Some r \<Longrightarrow> resolve_sync (n + m) st k w = Some r"
  by (auto simp: resolve_sync_def fuel_mono(1) split: sum.splits)

lemma resolve_sync_error:
  assumes "resolve_sync n st k w = Some (Inl e, w')"
  shows "\<exists>u. e = UnknownDependency u \<and> (k, u) \<in> (edges st)\<^sup>* \<and> chain_lookup st u = None"
proof (cases "chain_lookup st k")
  case None
  with assms show ?thesis by (auto simp: resolve_sync_def getitem_def)
next
  case (Some d)
  with assms have "sync_dfs n st (partially_resolved d) True w = Some (Inl e, w')"
    by (simp add: resolve_sync_def getitem_def)
  from sync_errors(1)[OF this] obtain kw u where kw: "kw \<in> set (subdeps d)"
    and u: "e = UnknownDependency u" "(func kw, u) \<in> (edges st)\<^sup>*" "chain_lookup st u = None"
    by auto
  from edgesI[OF Some kw] u(2) have "(k, u) \<in> (edges st)\<^sup>*" by (rule converse_rtrancl_into_rtrancl)
  with u show ?thesis by blast
qed

lemma resolve_sync_top:
  assumes "resolve_sync n st k w = Some (Inr out, w')"
  obtains d dep1 m where "chain_lookup st k = Some d" "n = Suc m"
    "sync_kwargs m st (subdeps d) (partially_resolved d) w = Some (Inr dep1, w')"
    "out = Partial (clear_unresolved dep1)" "pscope dep1 = scope d"
proof -
  from assms obtain d where d: "chain_lookup st k = Some d"
    and s: "sync_dfs n st (partially_resolved d) True w = Some (Inr out, w')"
    by (auto simp: resolve_sync_def getitem_def split: option.splits)
  from s obtain m where n: "n = Suc m" by (cases n) auto
  from s[unfolded n] show ?thesis
  proof (cases rule: sync_dfs_Suc_cases)
    case (partial dep1 w1)
    from sync_kwargs_frame[OF partial(1)] have "pscope dep1 = scope d" by simp
    with partial d n show ?thesis by (intro that[of d m dep1]) auto
  qed simp_all
qed

lemma resolve_sync_success:
  assumes "resolve_sync n st k w = Some (Inr out, w')"
  shows "\<not> dangling_reachable st k"
proof -
  from assms obtain d dep1 m where d: "chain_lookup st k = Some d"
    and loop: "sync_kwargs m st (subdeps d) (partially_resolved d) w = Some (Inr dep1, w')"
    by (rule resolve_sync_top)
  from sync_success_closed(2)[OF loop] d show ?thesis
    by (subst dangling_unfold) auto
qed

lemma async_kwargs_total: "\<exists>res' w'. async_kwargs pend res w = (res', w')"
  by (cases "async_kwargs pend res w") auto









lemma dangling_pair_edges: "edges dangling_pair = {(0, 1)}"
  by (auto simp: edges_def dangling_pair_def ex_defs split: if_splits)

lemma dangling_pair_acyclic: "\<not> cycle_reachable dangling_pair 0"
  unfolding cycle_reachable_def dangling_pair_edges by (simp add: trancl_insert)


section \<open>Unknown dependencies\<close>

lemma absent_resolve:
  assumes "chain_lookup st k = None"
  shows "resolve n st k w = Some (Inl (UnknownDependency k), w)"
    "aresolve n st k w = Some (Inl (UnknownDependency k), w)"
  using assms by (simp_all add: resolve_def aresolve_def resolve_async_def resolve_sync_def getitem_def)

lemma resolve_of_sync_error:
  assumes "resolve_sync n st k w = Some (Inl e, w')"
  shows "resolve n st k w = Some (Inl e, w')" "aresolve n st k w = Some (Inl e, w')"
  using assms by (simp_all add: resolve_def aresolve_def resolve_async_def)

text \<open>
  C6. A key that is in no layer makes the lookup of \<^verbatim>\<open>DepChainMap\<close> and of
  \<^verbatim>\<open>TinyDI._get_factory\<close> fail with \<^verbatim>\<open>UnknownDependency\<close> of that key, and with it every
  entry point asked for the key, before anything runs. The lookup answers from the
  innermost layer that has the key. At any depth: when an unregistered key is reachable
  from the requested key (and no cycle is), the resolution ends with
  \<^verbatim>\<open>UnknownDependency\<close> of an unregistered key of the closure, the one whose lookup the
  walk made first.
\<close>

theorem unknown_dependency_lookup:
  "(k \<notin> set (keys_of st) \<longrightarrow>
      getitem st k = Inl (UnknownDependency k)
      \<and> resolve n st k w = Some (Inl (UnknownDependency k), w)
      \<and> aresolve n st k w = Some (Inl (UnknownDependency k), w))
   \<and> (k \<notin> set (keys_of (deps di)) \<longrightarrow>
      get_factory di k = Inl (UnknownDependency k)
      \<and> di_getitem di k w = (Inl (UnknownDependency k), w)
      \<and> aget di k w = (Inl (UnknownDependency k), w))
   \<and> (map_of m k = Some d \<longrightarrow> getitem (m # ms) k = Inr d)
   \<and> (map_of m k = None \<longrightarrow> getitem (m # ms) k = getitem ms k)
   \<and> (\<not> cycle_reachable st k \<and> dangling_reachable st k \<longrightarrow>
        (\<exists>N. \<forall>w. \<exists>u w'. (k, u) \<in> (edges st)\<^sup>* \<and> u \<notin> set (keys_of st)
            \<and> (\<forall>n \<ge> N. resolve n st k w = Some (Inl (UnknownDependency u), w')
                        \<and> aresolve n st k w = Some (Inl (UnknownDependency u), w'))))"
proof -
  have depth: "\<exists>N. \<forall>w. \<exists>u w'. (k, u) \<in> (edges st)\<^sup>* \<and> u \<notin> set (keys_of st)
            \<and> (\<forall>n \<ge> N. resolve n st k w = Some (Inl (UnknownDependency u), w')
                        \<and> aresolve n st k w = Some (Inl (UnknownDependency u), w'))"
    if acyc: "\<not> cycle_reachable st k" and dang: "dangling_reachable st k"
  proof -
    from acyclic_resolve_sync_ends[OF acyc] obtain N where
      N: "\<And>n w. N \<le> n \<Longrightarrow> resolve_sync n st k w \<noteq> None" by blast
    have "\<exists>u w'. (k, u) \<in> (edges st)\<^sup>* \<and> u \<notin> set (keys_of st)
            \<and> (\<forall>n \<ge> N. resolve n st k w = Some (Inl (UnknownDependency u), w')
                        \<and> aresolve n st k w = Some (Inl (UnknownDependency u), w'))" for w
    proof -
      from N[of N w] obtain y w1 where y: "resolve_sync N st k w = Some (y, w1)"
        by (cases "resolve_sync N st k w") auto
      obtain e where e: "y = Inl e"
      proof (cases y)
        case (Inr out)
        with y resolve_sync_success dang show ?thesis by blast
      qed
      from resolve_sync_error[OF y[unfolded e]] obtain u where u: "e = UnknownDependency u"
        "(k, u) \<in> (edges st)\<^sup>*" "chain_lookup st u = None" by blast
      have "resolve n st k w = Some (Inl (UnknownDependency u), w1)
            \<and> aresolve n st k w = Some (Inl (UnknownDependency u), w1)" if "N \<le> n" for n
      proof -
        from that obtain j where "n = N + j" using le_Suc_ex by blast
        with resolve_sync_fuel[OF y, of j] e u(1)
        have "resolve_sync n st k w = Some (Inl (UnknownDependency u), w1)" by simp
        then show ?thesis by (simp add: resolve_of_sync_error)
      qed
      with u(2,3) show ?thesis by (auto simp: chain_lookup_None_iff)
    qed
    then show ?thesis by blast
  qed
  have "k \<notin> set (keys_of st) \<longrightarrow>
      getitem st k = Inl (UnknownDependency k)
      \<and> resolve n st k w = Some (Inl (UnknownDependency k), w)
      \<and> aresolve n st k w = Some (Inl (UnknownDependency k), w)"
    by (simp add: chain_lookup_None_iff[symmetric] absent_resolve getitem_def)
  moreover have "k \<notin> set (keys_of (deps di)) \<longrightarrow>
      get_factory di k = Inl (UnknownDependency k)
      \<and> di_getitem di k w = (Inl (UnknownDependency k), w)
      \<and> aget di k w = (Inl (UnknownDependency k), w)"
    by (simp add: chain_lookup_None_iff[symmetric] get_factory_def di_getitem_def aget_def)
  moreover have "map_of m k = Some d \<longrightarrow> getitem (m # ms) k = Inr d"
    "map_of m k = None \<longrightarrow> getitem (m # ms) k = getitem ms k"
    by (simp_all add: getitem_def)
  ultimately show ?thesis using depth by blast
qed

theorem unknown_dependency_lookup_witness:
  "1 \<notin> set (keys_of dangling_pair)
   \<and> getitem dangling_pair 1 = Inl (UnknownDependency 1)
   \<and> resolve 0 dangling_pair 1 start = Some (Inl (UnknownDependency 1), start)
   \<and> aresolve 0 dangling_pair 1 start = Some (Inl (UnknownDependency 1), start)
   \<and> 1 \<notin> set (keys_of (deps one_registered))
   \<and> get_factory one_registered 1 = Inl (UnknownDependency 1)
   \<and> di_getitem one_registered 1 start = (Inl (UnknownDependency 1), start)
   \<and> aget one_registered 1 start = (Inl (UnknownDependency 1), start)
   \<and> getitem shadowing 0 = Inr (node (plain 5) [])
   \<and> getitem shadowing 2 = Inr (node (plain 2) [arg ''z'' 0])
   \<and> \<not> cycle_reachable dangling_pair 0 \<and> dangling_reachable dangling_pair 0
   \<and> (\<exists>N. \<forall>w. \<exists>u w'. (0, u) \<in> (edges dangling_pair)\<^sup>* \<and> u \<notin> set (keys_of dangling_pair)
            \<and> (\<forall>n \<ge> N. resolve n dangling_pair 0 w = Some (Inl (UnknownDependency u), w')
                        \<and> aresolve n dangling_pair 0 w = Some (Inl (UnknownDependency u), w')))
   \<and> resolve 1 dangling_pair 0 start = Some (Inl (UnknownDependency 1), start)"
proof -
  have k1: "1 \<notin> set (keys_of dangling_pair)" by (simp add: keys_of_def dangling_pair_def)
  have k2: "1 \<notin> set (keys_of (deps one_registered))" by (simp add: keys_of_def one_registered_def)
  have m1: "map_of [(0, node (plain 5) [])] (0::nat) = Some (node (plain 5) [])" by simp
  have m2: "map_of [(0::nat, node (plain 5) [])] 2 = None" by simp
  have g2: "getitem [[(0, node (plain 0) [arg ''a'' 1]), (2, node (plain 2) [arg ''z'' 0])]] 2
      = Inr (node (plain 2) [arg ''z'' 0])" by (simp add: getitem_def)
  have dang: "dangling_reachable dangling_pair 0"
    by (subst dangling_unfold, subst dangling_unfold) (simp add: dangling_pair_def ex_defs)
  have ev: "resolve 1 dangling_pair 0 start = Some (Inl (UnknownDependency 1), start)"
    by (simp add: eng_defs dangling_pair_def)
  from unknown_dependency_lookup[of 1 dangling_pair 0 start one_registered] k1 k2
       unknown_dependency_lookup[of 0 _ _ _ _ "[(0, node (plain 5) [])]" "node (plain 5) []"
           "[[(0, node (plain 0) [arg ''a'' 1]), (2, node (plain 2) [arg ''z'' 0])]]"] m1
       unknown_dependency_lookup[of 2 _ _ _ _ "[(0, node (plain 5) [])]" _
           "[[(0, node (plain 0) [arg ''a'' 1]), (2, node (plain 2) [arg ''z'' 0])]]"] m2 g2
       unknown_dependency_lookup[of 0 dangling_pair] dangling_pair_acyclic dang ev
  show ?thesis by (simp add: shadowing_def)
qed

section \<open>Registration needs the whole closure\<close>

lemma dangling_here: "chain_lookup st k = None \<Longrightarrow> dangling_reachable st k"
  by (subst dangling_unfold) simp

lemma dangling_below:
  "chain_lookup st k = Some d \<Longrightarrow> kw \<in> set (subdeps d) \<Longrightarrow> dangling_reachable st (func kw) \<Longrightarrow>
     dangling_reachable st k"
  by (subst dangling_unfold) auto

lemma closed_iff:
  "closed st \<longleftrightarrow>
     (\<forall>x d kw. chain_lookup st x = Some d \<longrightarrow> kw \<in> set (subdeps d) \<longrightarrow> chain_lookup st (func kw) \<noteq> None)"
proof
  assume c: "closed st"
  show "\<forall>x d kw. chain_lookup st x = Some d \<longrightarrow> kw \<in> set (subdeps d) \<longrightarrow> chain_lookup st (func kw) \<noteq> None"
  proof (intro allI impI)
    fix x d kw assume d: "chain_lookup st x = Some d" and kw: "kw \<in> set (subdeps d)"
    from edgesI[OF d kw] have "(x, func kw) \<in> edges st" .
    with c show "chain_lookup st (func kw) \<noteq> None" by (rule closed_edge)
  qed
next
  assume "\<forall>x d kw. chain_lookup st x = Some d \<longrightarrow> kw \<in> set (subdeps d) \<longrightarrow> chain_lookup st (func kw) \<noteq> None"
  then show "closed st"
    by (auto simp: closed_def list_all_iff contains_def split: option.splits)
qed

lemma chain_lookup_new_child: "chain_lookup (new_child [(k, v)] st) = (chain_lookup st)(k \<mapsto> v)"
  by (rule ext) (simp add: new_child_def)

lemma chain_lookup_setitem:
  "chain_setitem st k v = Inr st' \<Longrightarrow> chain_lookup st' = (chain_lookup st)(k \<mapsto> v)"
  by (rule ext) (auto simp: chain_setitem_def update_conv' split: list.splits option.splits)

lemma edges_cong: "chain_lookup a = chain_lookup b \<Longrightarrow> edges a = edges b"
  by (simp add: edges_def)

lemma setitem_cases:
  obtains (failed) e where "setitem st k v = (Inl e, st)"
  | (stored) st' where "setitem st k v = (Inr (), st')" "chain_setitem st k v = Inr st'"
      "has_cycle (new_child [(k, v)] st) k = Inr False"
proof (cases "has_cycle (new_child [(k, v)] st) k")
  case (Inl e)
  then have "setitem st k v = (Inl e, st)" by (simp add: setitem_def)
  then show ?thesis by (rule failed)
next
  case (Inr b)
  show ?thesis
  proof (cases b)
    case True
    with Inr have "setitem st k v = (Inl (InvalidOperation CausesCycle), st)" by (simp add: setitem_def)
    then show ?thesis by (rule failed)
  next
    case False
    show ?thesis
    proof (cases "chain_setitem st k v")
      case (Inl e)
      with Inr False have "setitem st k v = (Inl e, st)" by (simp add: setitem_def)
      then show ?thesis by (rule failed)
    next
      case Inr2: (Inr st')
      with Inr False have "setitem st k v = (Inr (), st')" by (simp add: setitem_def)
      with Inr2 Inr False show ?thesis by (intro stored) auto
    qed
  qed
qed

lemma setitem_closed:
  assumes "closed st"
  shows "closed (snd (setitem st k v))"
proof (cases rule: setitem_cases[of st k v])
  case (failed e)
  with assms show ?thesis by simp
next
  case (stored st')
  let ?h = "new_child [(k, v)] st"
  from chain_lookup_setitem[OF stored(2)] have lk: "chain_lookup st' = (chain_lookup st)(k \<mapsto> v)" .
  then have same: "chain_lookup st' = chain_lookup ?h" by (simp add: chain_lookup_new_child)
  from has_cycle_False[OF stored(3)] have nd: "\<not> dangling_reachable ?h k" by simp
  have "closed st'"
    unfolding closed_iff
  proof (intro allI impI)
    fix x d kw assume d: "chain_lookup st' x = Some d" and kw: "kw \<in> set (subdeps d)"
    show "chain_lookup st' (func kw) \<noteq> None"
    proof (cases "x = k")
      case True
      from d same have "chain_lookup ?h x = Some d" by simp
      from edgesI[OF this kw] True have "(k, func kw) \<in> (edges ?h)\<^sup>*" by blast
      with nd have "chain_lookup ?h (func kw) \<noteq> None" by (auto simp: dangling_reachable_def)
      with same show ?thesis by simp
    next
      case False
      with d lk have "chain_lookup st x = Some d" by simp
      with assms kw have "chain_lookup st (func kw) \<noteq> None" unfolding closed_iff by blast
      with lk show ?thesis by simp
    qed
  qed
  with stored(1) show ?thesis by simp
qed

lemma injectable_factories_missing:
  assumes "a \<in> set anns" "factory_named (snd a) = Some u" "chain_lookup (deps di) u = None"
  shows "\<exists>u'. injectable_factories di anns = Inl (UnknownDependency u') \<and> chain_lookup (deps di) u' = None"
  using assms
proof (induction di anns rule: injectable_factories.induct)
  case (1 di)
  then show ?case by simp
next
  case (2 di b rest)
  then show ?case by (auto simp: factory_named_def)
next
  case (3 di b t marker rest)
  let ?f = "case marker of Some f \<Rightarrow> f | None \<Rightarrow> t"
  show ?case
  proof (cases "chain_lookup (deps di) ?f")
    case None
    then show ?thesis by (auto simp: get_factory_def)
  next
    case (Some d)
    then have g: "get_factory di ?f = Inr d" by (simp add: get_factory_def)
    from Some 3(2,3,4) have "a \<in> set rest" by (auto simp: factory_named_def)
    from 3(1)[OF g this 3(3,4)] g show ?thesis by auto
  qed
qed

lemma get_factories_for_func_read:
  "get_factories_for_func di f = injectable_factories di (annotations_read f)"
  by (simp add: get_factories_for_func_def annotations_read_def split: pyshape.splits option.splits)

text \<open>
  C10 (amended). A candidate from which an unregistered key is reachable in the storage
  with the candidate in front is not inserted: \<^verbatim>\<open>DepStorage.__setitem__\<close> fails and
  leaves the storage as it was, with \<^verbatim>\<open>UnknownDependency\<close> of an unregistered key of the
  closure, or with \<^verbatim>\<open>InvalidOperation\<close> when the walk closed a cycle first (and then
  there is a cycle). So registration keeps a closed storage closed. In
  \<^verbatim>\<open>TinyDI.__setitem__\<close> an annotation naming an unregistered factory makes the
  registration of a callable key fail with \<^verbatim>\<open>UnknownDependency\<close> of such a factory,
  the container unchanged.
\<close>

theorem registration_needs_closure:
  "(dangling_reachable (new_child [(k, v)] st) k \<longrightarrow>
      (\<exists>e. setitem st k v = (Inl e, st)
         \<and> (e = InvalidOperation CausesCycle \<and> cycle_reachable (new_child [(k, v)] st) k
             \<or> (\<exists>u. e = UnknownDependency u \<and> u \<notin> set (keys_of (new_child [(k, v)] st))
                    \<and> (k, u) \<in> (edges (new_child [(k, v)] st))\<^sup>*))))
   \<and> (closed st \<longrightarrow> closed (snd (setitem st k v)))
   \<and> (callable k
        \<and> (\<exists>a \<in> set (annotations_read (factory (scope_of_value rv))).
              \<exists>u. factory_named (snd a) = Some u \<and> u \<notin> set (keys_of (deps di))) \<longrightarrow>
        (\<exists>u. di_setitem callable di k rv = (Inl (UnknownDependency u), di)
            \<and> u \<notin> set (keys_of (deps di))))"
proof (intro conjI impI)
  let ?h = "new_child [(k, v)] st"
  assume dang: "dangling_reachable ?h k"
  show "\<exists>e. setitem st k v = (Inl e, st)
         \<and> (e = InvalidOperation CausesCycle \<and> cycle_reachable ?h k
             \<or> (\<exists>u. e = UnknownDependency u \<and> u \<notin> set (keys_of ?h) \<and> (k, u) \<in> (edges ?h)\<^sup>*))"
  proof (cases "has_cycle ?h k")
    case (Inl e)
    from has_cycle_Inl[OF Inl] Inl show ?thesis
      by (auto simp: setitem_def chain_lookup_None_iff)
  next
    case (Inr b)
    with dang has_cycle_False have b: "b = True" by (cases b) auto
    with Inr has_cycle_True have "cycle_reachable ?h k" by simp
    with Inr b show ?thesis by (simp add: setitem_def)
  qed
next
  assume "closed st"
  then show "closed (snd (setitem st k v))" by (rule setitem_closed)
next
  assume a: "callable k \<and> (\<exists>a \<in> set (annotations_read (factory (scope_of_value rv))).
              \<exists>u. factory_named (snd a) = Some u \<and> u \<notin> set (keys_of (deps di)))"
  then obtain an u where "an \<in> set (annotations_read (factory (scope_of_value rv)))"
    "factory_named (snd an) = Some u" "chain_lookup (deps di) u = None"
    by (auto simp: chain_lookup_None_iff)
  from injectable_factories_missing[OF this] obtain u' where
    "get_factories_for_func di (factory (scope_of_value rv)) = Inl (UnknownDependency u')"
    "chain_lookup (deps di) u' = None"
    by (auto simp: get_factories_for_func_read)
  with a show "\<exists>u. di_setitem callable di k rv = (Inl (UnknownDependency u), di)
            \<and> u \<notin> set (keys_of (deps di))"
    by (auto simp: di_setitem_def scope_of_value_def chain_lookup_None_iff)
qed

theorem registration_needs_closure_witness:
  "dangling_reachable (new_child [(0, needs_missing)] [[]]) 0
   \<and> setitem [[]] 0 needs_missing = (Inl (UnknownDependency 1), [[]])
   \<and> closed y_then_x
   \<and> closed (snd (setitem y_then_x 2 (node (plain 2) [arg ''x'' 0])))
   \<and> setitem y_then_x 2 (node (plain 2) [arg ''x'' 0])
       = (Inr (), [[(1, node (plain 1) []), (0, node (plain 0) [arg ''y'' 1]),
                    (2, node (plain 2) [arg ''x'' 0])]])
   \<and> callable_all 1
   \<and> (''a'', Annotated 7 (Some 0)) \<in> set (annotations_read (factory (scope_of_value (NotScope wants_zero))))
   \<and> factory_named (Annotated 7 (Some 0)) = Some 0
   \<and> 0 \<notin> set (keys_of (deps tinydi_init))
   \<and> di_setitem callable_all tinydi_init 1 (NotScope wants_zero)
       = (Inl (UnknownDependency 0), tinydi_init)"
proof -
  have d: "dangling_reachable (new_child [(0, needs_missing)] [[]]) 0"
    by (rule dangling_below[of _ _ needs_missing "arg ''a'' 1"], simp add: new_child_def,
        simp add: needs_missing_def ex_defs, rule dangling_here,
        simp add: new_child_def ex_defs)
  have e1: "setitem [[]] 0 needs_missing = (Inl (UnknownDependency 1), [[]])"
    by (simp add: setitem_def new_child_def has_cycle_def dfs_cycle.simps getitem_def
        needs_missing_def ex_defs)
  have c: "closed y_then_x"
    by (simp add: closed_def y_then_x_def keys_of_def contains_def ex_defs)
  have e2: "setitem y_then_x 2 (node (plain 2) [arg ''x'' 0])
       = (Inr (), [[(1, node (plain 1) []), (0, node (plain 0) [arg ''y'' 1]),
                    (2, node (plain 2) [arg ''x'' 0])]])"
    by (simp add: setitem_def new_child_def has_cycle_def dfs_cycle.simps getitem_def
        chain_setitem_def y_then_x_def ex_defs)
  have t: "callable_all 1" by (simp add: callable_all_def)
  have an: "(''a'', Annotated 7 (Some 0)) \<in> set (annotations_read (factory (scope_of_value (NotScope wants_zero))))"
    by (simp add: annotations_read_def scope_of_value_def default_scope_class_def wants_zero_def)
  have fn: "factory_named (Annotated 7 (Some 0)) = Some 0" by (simp add: factory_named_def)
  have k0: "0 \<notin> set (keys_of (deps tinydi_init))" by (simp add: keys_of_def tinydi_init_def)
  have e3: "di_setitem callable_all tinydi_init 1 (NotScope wants_zero)
       = (Inl (UnknownDependency 0), tinydi_init)"
    by (simp add: di_setitem_def callable_all_def tinydi_init_def wants_zero_def
        get_factories_for_func_def get_factory_def default_scope_class_def)
  from registration_needs_closure[where k = 0 and v = needs_missing and st = "[[]]"]
       registration_needs_closure[where k = 2 and v = "node (plain 2) [arg ''x'' 0]" and st = y_then_x]
       registration_needs_closure[where callable = callable_all and k = 1
         and rv = "NotScope wants_zero" and di = tinydi_init]
       d e1 c e2 t an fn k0 e3
  show ?thesis by simp
qed

text \<open>
  C10 as stated fails on the empty storage for the candidate of key 0 that names itself
  first and the unregistered key 1 second: the walk meets the gray key 0 before it looks
  key 1 up, and the registration fails with \<^verbatim>\<open>InvalidOperation\<close>, not with
  \<^verbatim>\<open>UnknownDependency\<close>.
\<close>

theorem registration_needs_closure_counterexample:
  "dangling_reachable (new_child [(0, self_loop_before_gap)] [[]]) 0
   \<and> setitem [[]] 0 self_loop_before_gap = (Inl (InvalidOperation CausesCycle), [[]])"
proof -
  have "dangling_reachable (new_child [(0, self_loop_before_gap)] [[]]) 0"
    by (rule dangling_below[of _ _ self_loop_before_gap "arg ''missing'' 1"],
        simp add: new_child_def, simp add: self_loop_before_gap_def ex_defs, rule dangling_here,
        simp add: new_child_def ex_defs)
  moreover have "setitem [[]] 0 self_loop_before_gap = (Inl (InvalidOperation CausesCycle), [[]])"
    by (simp add: setitem_def new_child_def has_cycle_def dfs_cycle.simps getitem_def
        self_loop_before_gap_def ex_defs)
  ultimately show ?thesis by simp
qed

section \<open>What resolution does to the world\<close>

lemma extends_refl [simp]: "extends w w"
  by (simp add: extends_def)
















section \<open>Singleton and Factory scopes\<close>




section \<open>The order of invocations\<close>







end
